theory Spec2Isabelle
  imports Main
begin

text \<open>
  The migration script of ros3djs (\<^verbatim>\<open>Gruntfile.js\<close>) rewrites each source file of the
  library from constructor functions with prototype methods to class declarations, by a
  fixed sequence of regular-expression replacements, and keeps two tables across the
  files: the inheritance index and the internal dependencies. This theory embeds the
  tables, the replacements and \<^verbatim>\<open>transpileToEs6\<close>, and proves what the script does.
\<close>

section \<open>JavaScript values and the inheritance index\<close>

text \<open>
  The build script keeps two process-wide tables. \<^verbatim>\<open>inheritance.index\<close> is a plain
  object whose properties are symbol names; a property holds the parent's name (a string)
  or \<^verbatim>\<open>null\<close>, and reading an absent property gives \<^verbatim>\<open>undefined\<close>. Entries are never
  deleted, so the object is modelled as a total function into the three kinds of value
  that occur, with \<open>Undefined\<close> for an absent property. Symbol names are assumed not to
  be names of properties that every JavaScript object inherits (such as
  \<^verbatim>\<open>constructor\<close>).
\<close>

datatype jsval = Undefined | Null | Str string

type_synonym inheritance_index = "string \<Rightarrow> jsval"

text \<open>JavaScript truthiness of the values above: the empty string is falsy.\<close>

fun truthy :: "jsval \<Rightarrow> bool" where
  "truthy Undefined = False"
| "truthy Null = False"
| "truthy (Str s) = (s \<noteq> [])"

definition empty_index :: inheritance_index where
  "empty_index = (\<lambda>_. Undefined)"

definition isClass :: "inheritance_index \<Rightarrow> string \<Rightarrow> bool" where
  "isClass idx prop = (idx prop \<noteq> Undefined)"

definition getParent :: "inheritance_index \<Rightarrow> string \<Rightarrow> jsval" where
  "getParent idx child = idx child"

text \<open>
  \<^verbatim>\<open>inheritance.track(child, parent)\<close>. The two logging branches are guarded by
  \<^verbatim>\<open>debugRules\<close> flags that are constant \<^verbatim>\<open>false\<close>, so they are left out.
\<close>

definition track :: "string \<Rightarrow> jsval \<Rightarrow> inheritance_index \<Rightarrow> inheritance_index" where
  "track child parent idx =
     (if truthy parent \<and> \<not> truthy (idx child) then idx(child := parent)
      else if \<not> isClass idx child then idx(child := Null)
      else idx)"

text \<open>
  A value used as a property key or inside a template string is converted to a string.
\<close>

fun to_string :: "jsval \<Rightarrow> string" where
  "to_string Undefined = ''undefined''"
| "to_string Null = ''null''"
| "to_string (Str s) = s"

section \<open>The dependency table and the diagnostics\<close>

text \<open>
  \<^verbatim>\<open>dependencies.internal\<close> maps a file path to the list of names the file depends on,
  in the order in which they were first seen. \<^verbatim>\<open>dependencies.track\<close> creates the list on
  the first call for a file and appends a name that the list does not hold yet.
\<close>

definition deps_track ::
  "string \<Rightarrow> string \<Rightarrow> (string \<rightharpoonup> string list) \<Rightarrow> (string \<rightharpoonup> string list)" where
  "deps_track file dependency deps =
     (case deps file of
        None \<Rightarrow> deps(file \<mapsto> [dependency])
      | Some l \<Rightarrow> if dependency \<in> set l then deps else deps(file \<mapsto> l @ [dependency]))"

text \<open>
  What the script prints with \<^verbatim>\<open>console.log\<close>: the banner of \<^verbatim>\<open>transpileToEs6\<close>, the
  class-mismatch report of the constructor stage (its heading and the four reported
  fields), and the notice of the superclass-call stage with the matched text. All flags
  of \<^verbatim>\<open>debugRules\<close> are constant \<^verbatim>\<open>false\<close>, so the output they guard never appears and is
  left out of the model.
\<close>

datatype diag =
    Processing string
  | ClassMismatch string string bool bool
  | RemovingExtra string

text \<open>The process-wide state: both tables and the console output so far.\<close>

record world =
  index :: inheritance_index
  internal :: "string \<rightharpoonup> string list"
  console :: "diag list"

definition world0 :: world where
  "world0 = \<lparr>index = empty_index, internal = Map.empty, console = []\<rparr>"

section \<open>Regular expressions as JavaScript matches them\<close>

text \<open>
  The stages are calls of \<^verbatim>\<open>String.prototype.replace\<close> with a regular expression and a
  callback. The expressions are modelled as syntax trees and matched by backtracking in
  the order JavaScript tries the alternatives. Texts are taken to be ASCII, so a line
  terminator is a line feed or a carriage return.
\<close>

datatype cls = AnyChar | Word | Space | OneOf string | NoneOf string | Union cls cls

definition is_line_terminator :: "char \<Rightarrow> bool" where
  "is_line_terminator c = (c = CHR ''\<newline>'' \<or> c = CHR 0x0D)"

definition is_space :: "char \<Rightarrow> bool" where
  "is_space c =
     (c \<in> set [CHR 0x09, CHR ''\<newline>'', CHR 0x0B, CHR 0x0C, CHR 0x0D, CHR '' ''])"

definition is_word :: "char \<Rightarrow> bool" where
  "is_word c =
     (c \<in> set ''abcdefghijklmnopqrstuvwxyzABCDEFGHIJKLMNOPQRSTUVWXYZ0123456789_'')"

text \<open>
  \<open>AnyChar\<close> is the dot (any character but a line terminator), \<open>Word\<close> is \<^verbatim>\<open>\w\<close>,
  \<open>Space\<close> is \<^verbatim>\<open>\s\<close>, \<open>OneOf\<close> and \<open>NoneOf\<close> are bracket classes.
\<close>

fun in_cls :: "cls \<Rightarrow> char \<Rightarrow> bool" where
  "in_cls AnyChar c = (\<not> is_line_terminator c)"
| "in_cls Word c = is_word c"
| "in_cls Space c = is_space c"
| "in_cls (OneOf cs) c = (c \<in> set cs)"
| "in_cls (NoneOf cs) c = (c \<notin> set cs)"
| "in_cls (Union a b) c = (in_cls a c \<or> in_cls b c)"

text \<open>
  \<open>Star\<close> is the greedy \<^verbatim>\<open>*\<close>, \<open>LazyStar\<close> is \<^verbatim>\<open>*?\<close>, \<open>Grp i\<close> is the \<open>i\<close>-th capturing
  group, \<open>NegLook\<close> is \<^verbatim>\<open>(?!...)\<close> and \<open>Eol\<close> is \<^verbatim>\<open>$\<close> under the \<^verbatim>\<open>m\<close> flag.
\<close>

datatype re =
    Eps
  | Lit string
  | Cls cls
  | Seq re re
  | Alt re re
  | Star re
  | LazyStar re
  | Grp nat re
  | NegLook re
  | Eol

definition OneOrMore :: "re \<Rightarrow> re" where
  "OneOrMore r = Seq r (Star r)"

definition LazyOneOrMore :: "re \<Rightarrow> re" where
  "LazyOneOrMore r = Seq r (LazyStar r)"

definition Optional :: "re \<Rightarrow> re" where
  "Optional r = Alt r Eps"

fun seqs :: "re list \<Rightarrow> re" where
  "seqs [] = Eps"
| "seqs [r] = r"
| "seqs (r # rs) = Seq r (seqs rs)"

text \<open>
  A matcher state is the text still to be read and the groups captured so far (the most
  recent capture of a group first).
\<close>

type_synonym caps = "(nat \<times> string) list"
type_synonym mstate = "string \<times> caps"

fun strip_prefix :: "string \<Rightarrow> string \<Rightarrow> string option" where
  "strip_prefix [] s = Some s"
| "strip_prefix (p # ps) [] = None"
| "strip_prefix (p # ps) (c # cs) = (if p = c then strip_prefix ps cs else None)"

text \<open>
  \<open>ms r st\<close> lists every way in which \<open>r\<close> matches at \<open>st\<close>, in the order in which a
  backtracking matcher reaches them; the engine takes the first. An iteration of a
  quantifier that consumes nothing is rejected, as in JavaScript.
\<close>

function (sequential) ms :: "re \<Rightarrow> mstate \<Rightarrow> mstate list" where
  "ms Eps st = [st]"
| "ms (Lit l) (s, g) = (case strip_prefix l s of None \<Rightarrow> [] | Some s' \<Rightarrow> [(s', g)])"
| "ms (Cls k) ([], g) = []"
| "ms (Cls k) (c # s, g) = (if in_cls k c then [(s, g)] else [])"
| "ms (Seq a b) st = concat (map (ms b) (ms a st))"
| "ms (Alt a b) st = ms a st @ ms b st"
| "ms (Star r) st =
     concat (map (\<lambda>st'. if length (fst st') < length (fst st) then ms (Star r) st' else [])
                 (ms r st)) @ [st]"
| "ms (LazyStar r) st =
     st # concat (map (\<lambda>st'. if length (fst st') < length (fst st)
                              then ms (LazyStar r) st' else [])
                      (ms r st))"
| "ms (Grp i r) (s, g) =
     map (\<lambda>(s', g'). (s', (i, take (length s - length s') s) # g')) (ms r (s, g))"
| "ms (NegLook r) st = (if ms r st = [] then [st] else [])"
| "ms Eol (s, g) =
     (case s of [] \<Rightarrow> [(s, g)] | c # _ \<Rightarrow> if is_line_terminator c then [(s, g)] else [])"
  by pat_completeness auto
termination
  by (relation "measures [\<lambda>(r, st). size r, \<lambda>(r, st). length (fst st)]") auto

text \<open>
  A match at the start of \<open>s\<close>: the matched text, the text after it and the captures.
\<close>

definition match_here :: "re \<Rightarrow> string \<Rightarrow> (string \<times> string \<times> caps) option" where
  "match_here r s =
     (case ms r (s, []) of
        [] \<Rightarrow> None
      | (s', g) # _ \<Rightarrow> Some (take (length s - length s') s, s', g))"

text \<open>
  A replace with the \<^verbatim>\<open>g\<close> flag cuts the text into matches and the characters between
  them: it looks for a match at the current position, moves one character on when there
  is none or when the match is empty, and goes on behind a match that is not empty. A
  match is looked for at the end of the text as well.
\<close>

datatype piece = Gap char | Hit string caps

function pieces :: "re \<Rightarrow> string \<Rightarrow> piece list" where
  "pieces r s =
     (case match_here r s of
        None \<Rightarrow> (case s of [] \<Rightarrow> [] | c # cs \<Rightarrow> Gap c # pieces r cs)
      | Some (m, s', g) \<Rightarrow>
          if length s' < length s then Hit m g # pieces r s'
          else Hit m g # (case s of [] \<Rightarrow> [] | c # cs \<Rightarrow> Gap c # pieces r cs))"
  by pat_completeness auto
termination
  by (relation "measure (\<lambda>(r, s). length s)") auto

fun piece_text :: "piece \<Rightarrow> string" where
  "piece_text (Gap c) = [c]"
| "piece_text (Hit m g) = m"

text \<open>
  The callback is called for each match from left to right with the matched text and the
  groups; it returns the replacement and, in the model, the state it leaves behind.
\<close>

fun apply_pieces ::
  "(string \<Rightarrow> caps \<Rightarrow> 's \<Rightarrow> string \<times> 's) \<Rightarrow> piece list \<Rightarrow> 's \<Rightarrow> string \<times> 's" where
  "apply_pieces f [] st = ([], st)"
| "apply_pieces f (Gap c # ps) st =
     (case apply_pieces f ps st of (out, st') \<Rightarrow> (c # out, st'))"
| "apply_pieces f (Hit m g # ps) st =
     (case f m g st of (rep, st1) \<Rightarrow>
        (case apply_pieces f ps st1 of (out, st2) \<Rightarrow> (rep @ out, st2)))"

definition replace_all ::
  "re \<Rightarrow> (string \<Rightarrow> caps \<Rightarrow> 's \<Rightarrow> string \<times> 's) \<Rightarrow> string \<Rightarrow> 's \<Rightarrow> string \<times> 's" where
  "replace_all r f s st = apply_pieces f (pieces r s) st"

text \<open>A replace without the \<^verbatim>\<open>g\<close> flag and with a fixed replacement: the first match only.\<close>

fun replace_first :: "re \<Rightarrow> string \<Rightarrow> string \<Rightarrow> string" where
  "replace_first r rep [] =
     (case match_here r [] of None \<Rightarrow> [] | Some (m, s', g) \<Rightarrow> rep @ s')"
| "replace_first r rep (c # cs) =
     (case match_here r (c # cs) of
        None \<Rightarrow> c # replace_first r rep cs
      | Some (m, s', g) \<Rightarrow> rep @ s')"

text \<open>
  The value of group \<open>i\<close> as the callback receives it (\<^verbatim>\<open>undefined\<close> for a group that took
  no part in the match), and the same as a string.
\<close>

definition cap_val :: "caps \<Rightarrow> nat \<Rightarrow> jsval" where
  "cap_val g i = (case map_of g i of None \<Rightarrow> Undefined | Some s \<Rightarrow> Str s)"

definition cap_str :: "caps \<Rightarrow> nat \<Rightarrow> string" where
  "cap_str g i = to_string (cap_val g i)"

text \<open>The matches of a segmentation, and whether a pattern occurs in a text at all.\<close>

fun hits :: "piece list \<Rightarrow> (string \<times> caps) list" where
  "hits [] = []"
| "hits (Gap c # ps) = hits ps"
| "hits (Hit m g # ps) = (m, g) # hits ps"

fun gaps :: "piece list \<Rightarrow> string" where
  "gaps [] = []"
| "gaps (Gap c # ps) = c # gaps ps"
| "gaps (Hit m g # ps) = gaps ps"

definition occurs :: "re \<Rightarrow> string \<Rightarrow> bool" where
  "occurs r s = (hits (pieces r s) \<noteq> [])"

text \<open>The matches together with the state in which the callback is called for each.\<close>

fun hit_states ::
  "(string \<Rightarrow> caps \<Rightarrow> 's \<Rightarrow> string \<times> 's) \<Rightarrow> piece list \<Rightarrow> 's \<Rightarrow> (string \<times> caps \<times> 's) list" where
  "hit_states f [] st = []"
| "hit_states f (Gap c # ps) st = hit_states f ps st"
| "hit_states f (Hit m g # ps) st = (m, g, st) # hit_states f ps (snd (f m g st))"

section \<open>String helpers of the callbacks\<close>

text \<open>\<^verbatim>\<open>split\<close> at every character for which \<open>P\<close> holds, keeping empty parts.\<close>

fun split_on :: "(char \<Rightarrow> bool) \<Rightarrow> string \<Rightarrow> string list" where
  "split_on P [] = [[]]"
| "split_on P (c # cs) =
     (if P c then [] # split_on P cs
      else (case split_on P cs of [] \<Rightarrow> [[c]] | x # xs \<Rightarrow> (c # x) # xs))"

fun join :: "string \<Rightarrow> string list \<Rightarrow> string" where
  "join sep [] = []"
| "join sep [x] = x"
| "join sep (x # xs) = x @ sep @ join sep xs"

definition trim :: "string \<Rightarrow> string" where
  "trim s = rev (dropWhile is_space (rev (dropWhile is_space s)))"

text \<open>
  \<^verbatim>\<open>path.basename(p, ext)\<close> of Node's library on a POSIX path: the last component of the
  path, without \<open>ext\<close> when the component ends with it and is longer.
\<close>

definition basename :: "string \<Rightarrow> string \<Rightarrow> string" where
  "basename p ext =
     (if p = ext then []
      else let base = rev (takeWhile (\<lambda>c. c \<noteq> CHR ''/'')
                             (dropWhile (\<lambda>c. c = CHR ''/'') (rev p)))
           in if length ext < length base \<and> drop (length base - length ext) base = ext
              then take (length base - length ext) base else base)"

definition getFileClass :: "string \<Rightarrow> string" where
  "getFileClass filepath = basename filepath ''.js''"

definition isFileClass :: "string \<Rightarrow> string \<Rightarrow> bool" where
  "isFileClass filepath className = (getFileClass filepath = className)"

definition indent :: string where
  "indent = ''  ''"

definition line_feed :: string where
  "line_feed = ''\<newline>''"

definition cr_lf :: string where
  "cr_lf = [CHR 0x0D, CHR ''\<newline>'']"

section \<open>The stages of \<^verbatim>\<open>transpile\<close>\<close>

subsection \<open>The initial assignment of the namespace\<close>

text \<open>
  \<^verbatim>\<open>/var ROS3D = ROS3D \|\| \{\n  REVISION \: '0.18.0'\n\};/m\<close>; the dots of the revision
  are not escaped.
\<close>

definition re_initialROS3DAssignment :: re where
  "re_initialROS3DAssignment =
     seqs [Lit ''var ROS3D = ROS3D || {\<newline>  REVISION : '', Lit [CHR 0x27], Lit ''0'',
           Cls AnyChar, Lit ''18'', Cls AnyChar, Lit ''0'', Lit [CHR 0x27], Lit ''\<newline>};'']"

definition revision_export :: string where
  "revision_export =
     ''export const REVISION = '' @ [CHR 0x27] @ ''0.18.0'' @ [CHR 0x27] @ '';''"

subsection \<open>Internal dependencies\<close>

text \<open>\<^verbatim>\<open>/ROS3D\.(\w+)(?!.*=.*)/g\<close>\<close>

definition re_internalDependencies :: re where
  "re_internalDependencies =
     seqs [Lit ''ROS3D.'', Grp 1 (OneOrMore (Cls Word)),
           NegLook (seqs [Star (Cls AnyChar), Lit ''='', Star (Cls AnyChar)])]"

definition internalDependencies_fn ::
  "string \<Rightarrow> string \<Rightarrow> caps \<Rightarrow> world \<Rightarrow> string \<times> world" where
  "internalDependencies_fn filepath m g w =
     (cap_str g 1, w\<lparr>internal := deps_track filepath (cap_str g 1) (internal w)\<rparr>)"

subsection \<open>The inheritance index\<close>

text \<open>\<^verbatim>\<open>/ROS3D.(\w+).prototype.__proto__ = (.*).prototype;[\r\n]?/g\<close>\<close>

definition re_buildInheritanceIndexViaProto :: re where
  "re_buildInheritanceIndexViaProto =
     seqs [Lit ''ROS3D'', Cls AnyChar, Grp 1 (OneOrMore (Cls Word)), Cls AnyChar,
           Lit ''prototype'', Cls AnyChar, Lit ''__proto__ = '', Grp 2 (Star (Cls AnyChar)),
           Cls AnyChar, Lit ''prototype;'', Optional (Cls (OneOf cr_lf))]"

text \<open>\<^verbatim>\<open>/Object.assign\((\w+).prototype, (.*).prototype\);/g\<close>\<close>

definition re_buildInheritanceIndexViaObjectAssign :: re where
  "re_buildInheritanceIndexViaObjectAssign =
     seqs [Lit ''Object'', Cls AnyChar, Lit ''assign('', Grp 1 (OneOrMore (Cls Word)),
           Cls AnyChar, Lit ''prototype, '', Grp 2 (Star (Cls AnyChar)), Cls AnyChar,
           Lit ''prototype);'']"

text \<open>Both patterns have the same callback: track the link and delete the statement.\<close>

definition buildInheritanceIndex_fn :: "string \<Rightarrow> caps \<Rightarrow> world \<Rightarrow> string \<times> world" where
  "buildInheritanceIndex_fn m g w =
     ([], w\<lparr>index := track (cap_str g 1) (cap_val g 2) (index w)\<rparr>)"

subsection \<open>Methods\<close>

text \<open>\<^verbatim>\<open>/ROS3D.(\w+).prototype.(\w+) = function/g\<close>\<close>

definition re_methods :: re where
  "re_methods =
     seqs [Lit ''ROS3D'', Cls AnyChar, Grp 1 (OneOrMore (Cls Word)), Cls AnyChar,
           Lit ''prototype'', Cls AnyChar, Grp 2 (OneOrMore (Cls Word)), Lit '' = function'']"

definition methods_fn :: "string \<Rightarrow> caps \<Rightarrow> world \<Rightarrow> string \<times> world" where
  "methods_fn m g w =
     (if cap_val g 2 = Str ''__proto__'' then (m, w)
      else (cap_str g 2, w\<lparr>index := track (cap_str g 1) Null (index w)\<rparr>))"

subsection \<open>Constructors\<close>

text \<open>\<^verbatim>\<open>/ROS3D.(\w+)\s*=\s*function/g\<close>\<close>

definition re_constructors :: re where
  "re_constructors =
     seqs [Lit ''ROS3D'', Cls AnyChar, Grp 1 (OneOrMore (Cls Word)),
           Star (Cls Space), Lit ''='', Star (Cls Space), Lit ''function'']"

definition constructors_fn :: "string \<Rightarrow> string \<Rightarrow> caps \<Rightarrow> world \<Rightarrow> string \<times> world" where
  "constructors_fn filepath m g w =
     (let isClass1 = isClass (index w) (cap_str g 1);
          isClass2 = isFileClass filepath (cap_str g 1);
          w' = (if isClass1 \<noteq> isClass2
                then w\<lparr>console := console w
                        @ [ClassMismatch filepath (cap_str g 1) isClass1 isClass2]\<rparr>
                else w)
      in if isClass (index w) (cap_str g 1) then (''constructor'', w') else (m, w'))"

subsection \<open>Parent constructor calls\<close>

text \<open>\<^verbatim>\<open>/[\r\n]([\s]*)([\w.]+)\.call\((?:this|that)(.*)/g\<close>\<close>

definition re_parentConstructors :: re where
  "re_parentConstructors =
     seqs [Cls (OneOf cr_lf), Grp 1 (Star (Cls Space)),
           Grp 2 (OneOrMore (Cls (Union Word (OneOf ''.'')))), Lit ''.call('',
           Alt (Lit ''this'') (Lit ''that''), Grp 3 (Star (Cls AnyChar))]"

text \<open>
  The arguments of the generated call: the text behind the receiver is split at every
  comma and closing parenthesis, the first and the last part are dropped, the others are
  joined with commas and trimmed.
\<close>

definition super_args :: "string \<Rightarrow> string" where
  "super_args a =
     trim (join '','' (butlast (tl (split_on (\<lambda>c. c = CHR '','' \<or> c = CHR '')'') a))))"

text \<open>The callback's parameters are the match, the indentation, the reference and the rest.\<close>

definition parentConstructors_fn ::
  "string \<Rightarrow> string \<Rightarrow> caps \<Rightarrow> world \<Rightarrow> string \<times> world" where
  "parentConstructors_fn filepath m g w =
     (let child = getFileClass filepath;
          parent = getParent (index w) child
      in if cap_val g 2 = parent
         then (line_feed @ cap_str g 1 @ ''super('' @ super_args (cap_str g 3) @ '');'', w)
         else ([], w\<lparr>console := console w @ [RemovingExtra m]\<rparr>))"

subsection \<open>Class wrappers\<close>

text \<open>
  \<^verbatim>\<open>/((?:\/\*\*(?:(?:\*[^/]|[^*])+?)\*\/)(?:[\s\r\n])*constructor\(.*)|$(?:[\r\n]$)*((?![\r\n]))|.*/gm\<close>
\<close>

definition re_classes :: re where
  "re_classes =
     Alt (Grp 1 (seqs [Lit ''/**'',
                       LazyOneOrMore (Alt (Seq (Lit ''*'') (Cls (NoneOf ''/'')))
                                          (Cls (NoneOf ''*''))),
                       Lit ''*/'',
                       Star (Cls (Union Space (OneOf cr_lf))),
                       Lit ''constructor('', Star (Cls AnyChar)]))
    (Alt (seqs [Eol, Star (Seq (Cls (OneOf cr_lf)) Eol),
                Grp 2 (NegLook (Cls (OneOf cr_lf)))])
         (Star (Cls AnyChar)))"

text \<open>The closure's state, created anew by each call of \<^verbatim>\<open>transpile.classes\<close>.\<close>

record asm_state =
  isInClass :: bool
  matchedFirstComment :: bool

definition asm_init :: asm_state where
  "asm_init = \<lparr>isInClass = False, matchedFirstComment = False\<rparr>"

definition isStart :: "caps \<Rightarrow> asm_state \<Rightarrow> bool" where
  "isStart g st = (cap_val g 1 \<noteq> Undefined \<and> \<not> matchedFirstComment st)"

definition isFinish :: "caps \<Rightarrow> bool" where
  "isFinish g = (cap_val g 2 \<noteq> Undefined)"

text \<open>\<^verbatim>\<open>match.replace(/[\r\n]/g, `\n${indent}`)\<close>\<close>

definition reindent :: "string \<Rightarrow> string" where
  "reindent m =
     concat (map (\<lambda>c. if c = CHR 0x0D \<or> c = CHR ''\<newline>'' then line_feed @ indent else [c]) m)"

definition classes_fn ::
  "string \<Rightarrow> inheritance_index \<Rightarrow> string \<Rightarrow> caps \<Rightarrow> asm_state \<Rightarrow> string \<times> asm_state" where
  "classes_fn filepath idx m g st =
     (let className = getFileClass filepath;
          parent = getParent idx className
      in if isStart g st
         then (let indentedMatch = indent @ reindent m;
                   st' = st\<lparr>matchedFirstComment := True, isInClass := True\<rparr>
               in if truthy parent
                  then (''export class '' @ className @ '' extends '' @ to_string parent
                          @ '' {'' @ line_feed @ line_feed @ indentedMatch, st')
                  else (''export class '' @ className
                          @ '' {'' @ line_feed @ line_feed @ indentedMatch, st'))
         else if isInClass st
         then (if \<not> isFinish g then (indent @ m, st)
               else (line_feed @ ''}'' @ line_feed, st\<lparr>isInClass := False\<rparr>))
         else (m, st))"

subsection \<open>The pipeline\<close>

definition transpileToEs6 :: "string \<Rightarrow> string \<Rightarrow> world \<Rightarrow> string \<times> world" where
  "transpileToEs6 content filepath w =
     (let w0 = w\<lparr>console := console w @ [Processing filepath]\<rparr>;
          t0 = (if filepath = ''src/Ros3D.js''
                then replace_first re_initialROS3DAssignment revision_export content
                else content);
          (t1, w1) = replace_all re_internalDependencies (internalDependencies_fn filepath) t0 w0;
          (t2, w2) = replace_all re_buildInheritanceIndexViaProto buildInheritanceIndex_fn t1 w1;
          (t3, w3) = replace_all re_buildInheritanceIndexViaObjectAssign
                       buildInheritanceIndex_fn t2 w2;
          (t4, w4) = replace_all re_methods methods_fn t3 w3;
          (t5, w5) = replace_all re_constructors (constructors_fn filepath) t4 w4;
          (t6, w6) = replace_all re_parentConstructors (parentConstructors_fn filepath) t5 w5;
          (t7, st) = replace_all re_classes (classes_fn filepath (index w6)) t6 asm_init
      in (t7, w6))"


section \<open>Notions used in the statements\<close>

subsection \<open>Reachable indexes\<close>

text \<open>
  The indexes that a run can build: the index starts empty and is written by
  \<^verbatim>\<open>inheritance.track\<close> only.
\<close>

inductive reachable :: "inheritance_index \<Rightarrow> bool" where
  start: "reachable empty_index"
| step: "reachable idx \<Longrightarrow> reachable (track child parent idx)"

subsection \<open>Texts\<close>

text \<open>
  The rest of the current line; whether a text is at the end of a line; whether a text
  goes on, after white space, with an assignment operator.
\<close>

definition line_rest :: "string \<Rightarrow> string" where
  "line_rest s = takeWhile (\<lambda>c. \<not> is_line_terminator c) s"

definition at_line_end :: "string \<Rightarrow> bool" where
  "at_line_end s = (case s of [] \<Rightarrow> True | c # _ \<Rightarrow> is_line_terminator c)"

definition assigned_next :: "string \<Rightarrow> bool" where
  "assigned_next post =
     (case dropWhile is_space post of
        [] \<Rightarrow> False
      | c # cs \<Rightarrow> c = CHR ''='' \<and> (case cs of [] \<Rightarrow> True | d # _ \<Rightarrow> d \<noteq> CHR ''=''))"

text \<open>The names recorded as dependencies of a file.\<close>

definition deps_of :: "world \<Rightarrow> string \<Rightarrow> string list" where
  "deps_of w file = (case internal w file of None \<Rightarrow> [] | Some l \<Rightarrow> l)"

text \<open>
  A call statement as the superclass-call stage looks for it: a line terminator, white
  space, a reference made of word characters and dots, \<^verbatim>\<open>.call(\<close>, the receiver \<^verbatim>\<open>this\<close>
  or \<^verbatim>\<open>that\<close>, and the rest of the line; \<open>post\<close> is the text behind that line.
\<close>

definition wordish :: "char \<Rightarrow> bool" where
  "wordish c = (is_word c \<or> c = CHR ''.'')"

definition call_statement ::
  "char \<Rightarrow> string \<Rightarrow> string \<Rightarrow> string \<Rightarrow> string \<Rightarrow> string \<Rightarrow> bool" where
  "call_statement c ind ref kw rest post =
     (is_line_terminator c \<and> list_all is_space ind \<and> ref \<noteq> [] \<and> list_all wordish ref
      \<and> (kw = ''this'' \<or> kw = ''that'') \<and> list_all (\<lambda>x. \<not> is_line_terminator x) rest
      \<and> at_line_end post)"

text \<open>An argument text without a comma or a closing parenthesis of its own.\<close>

definition plain :: "string \<Rightarrow> bool" where
  "plain a = (CHR '','' \<notin> set a \<and> CHR '')'' \<notin> set a)"

subsection \<open>Groups of a pattern\<close>

text \<open>
  The groups a pattern can set, and those that every match of it sets. A look-ahead
  hands the captures on as it found them.
\<close>

fun groups :: "re \<Rightarrow> nat set" where
  "groups (Grp i r) = insert i (groups r)"
| "groups (Seq a b) = groups a \<union> groups b"
| "groups (Alt a b) = groups a \<union> groups b"
| "groups (Star r) = groups r"
| "groups (LazyStar r) = groups r"
| "groups _ = {}"

fun sure_groups :: "re \<Rightarrow> nat set" where
  "sure_groups (Grp i r) = insert i (sure_groups r)"
| "sure_groups (Seq a b) = sure_groups a \<union> sure_groups b"
| "sure_groups (Alt a b) = sure_groups a \<inter> sure_groups b"
| "sure_groups _ = {}"

subsection \<open>Sample units\<close>

text \<open>
  A constructor body with the call of the parent's constructor and the call of another
  one, and a state in which \<^verbatim>\<open>Base\<close> is recorded as the parent of \<^verbatim>\<open>Child\<close>.
\<close>

definition callText :: string where
  "callText = ''constructor(o) {\<newline>  Base.call(this, o.a, o.b);\<newline>  Mixin.call(this);\<newline>}''"

definition world_Child_Base :: world where
  "world_Child_Base = world0\<lparr>index := track ''Child'' (Str ''Base'') empty_index\<rparr>"

text \<open>A line with an assignment target and two references that are read.\<close>

definition depText :: string where
  "depText = ''ROS3D.A = ROS3D.make(ROS3D.B);''"

text \<open>Two pairs of a documentation comment and a constructor.\<close>

definition twoClasses :: string where
  "twoClasses = ''/** A */\<newline>constructor(a) {\<newline>}\<newline>/** B */\<newline>constructor(b) {\<newline>}''"

text \<open>
  A free function; a class with its link statement, its documentation comment, its
  constructor and one method, and the text the pipeline makes of it; the same class
  without the documentation comment, and the text the pipeline makes of that.
\<close>

definition utilText :: string where
  "utilText = ''ROS3D.util = function(x) { return x; };''"

definition scenarioA :: string where
  "scenarioA = ''ROS3D.Arrow2.prototype.__proto__ = Base.prototype;\<newline>/**\<newline> * An arrow.\<newline> */\<newline>ROS3D.Arrow2 = function(options) {\<newline>  Base.call(this, options);\<newline>};\<newline>ROS3D.Arrow2.prototype.dispose = function() {\<newline>  this.gone = true;\<newline>};\<newline>''"

definition scenarioA_out :: string where
  "scenarioA_out = ''export class Arrow2 extends Base {\<newline>\<newline>  /**\<newline>   * An arrow.\<newline>   */\<newline>  constructor(options) {  \<newline>    super(options);  \<newline>  };  \<newline>  dispose() {  \<newline>    this.gone = true;  \<newline>  };\<newline>}\<newline>''"



subsection \<open>Simplifier setup\<close>

text \<open>
  The recursive equations of the quantifiers and of the scan are unfolded by hand in the
  proofs below.
\<close>

declare ms.simps(7,8) [simp del]
declare pieces.simps [simp del]

section \<open>Properties of the inheritance index\<close>

lemma track_keeps_names_nonempty:
  assumes "\<forall>c. idx c \<noteq> Str []"
  shows "\<forall>c. track child parent idx c \<noteq> Str []"
proof (cases parent)
  case (Str p)
  with assms show ?thesis by (auto simp: track_def)
qed (use assms in \<open>auto simp: track_def\<close>)

lemma reachable_names_nonempty: "reachable idx \<Longrightarrow> \<forall>c. idx c \<noteq> Str []"
proof (induction rule: reachable.induct)
  case start
  show ?case by (simp add: empty_index_def)
next
  case (step idx child parent)
  from step.IH show ?case by (rule track_keeps_names_nonempty)
qed

lemma track_resolved_unchanged:
  assumes "idx child = Str p" and "p \<noteq> []"
  shows "track child parent idx = idx"
  using assms by (simp add: track_def isClass_def)

text \<open>
  Claim C1 (first registration wins). In every index that calls of \<open>track\<close> can build
  from the empty one, a symbol whose entry is a parent name keeps that entry under any
  later \<open>track\<close> call for that symbol with another parent name; the whole index is left
  as it was.
\<close>

theorem track_first_wins:
  assumes "reachable idx" and "idx child = Str p" and "q \<noteq> p"
  shows "track child (Str q) idx = idx \<and> getParent (track child (Str q) idx) child = Str p"
proof -
  from assms(1) have "idx child \<noteq> Str []" using reachable_names_nonempty by blast
  with assms(2) have "p \<noteq> []" by auto
  with assms(2) have "track child (Str q) idx = idx" by (rule track_resolved_unchanged)
  with assms(2) show ?thesis by (simp add: getParent_def)
qed

theorem track_first_wins_witness:
  "reachable (track ''Child'' (Str ''Base'') empty_index)
   \<and> track ''Child'' (Str ''Base'') empty_index ''Child'' = Str ''Base''
   \<and> ''Other'' \<noteq> ''Base''
   \<and> getParent (track ''Child'' (Str ''Other'') (track ''Child'' (Str ''Base'') empty_index))
        ''Child'' = Str ''Base''"
proof -
  have r: "reachable (track ''Child'' (Str ''Base'') empty_index)"
    by (rule reachable.step [OF reachable.start])
  have e: "track ''Child'' (Str ''Base'') empty_index ''Child'' = Str ''Base''"
    by (simp add: track_def empty_index_def)
  have n: "''Other'' \<noteq> ''Base''" by simp
  from track_first_wins [of "track ''Child'' (Str ''Base'') empty_index" "''Child''" "''Base''" "''Other''"]
    r e n show ?thesis by blast
qed

text \<open>
  Claim C9. A symbol whose entry is the no-parent sentinel \<^verbatim>\<open>null\<close> (as method tagging
  leaves it) gets its parent from the next \<open>track\<close> call that names one; the other
  entries stay as they were.
\<close>

theorem track_null_then_parent:
  assumes "idx child = Null" and "p \<noteq> []"
  shows "getParent (track child (Str p) idx) child = Str p
         \<and> (\<forall>c. c \<noteq> child \<longrightarrow> track child (Str p) idx c = idx c)"
  using assms by (simp add: track_def getParent_def)

theorem track_null_then_parent_witness:
  "track ''Child'' Null empty_index ''Child'' = Null \<and> ''Base'' \<noteq> []
   \<and> getParent (track ''Child'' (Str ''Base'') (track ''Child'' Null empty_index)) ''Child''
       = Str ''Base''"
proof -
  have e: "track ''Child'' Null empty_index ''Child'' = Null"
    by (simp add: track_def empty_index_def isClass_def)
  have n: "''Base'' \<noteq> []" by simp
  from track_null_then_parent [of "track ''Child'' Null empty_index" "''Child''" "''Base''"]
    e n show ?thesis by blast
qed

section \<open>The matcher and the scan\<close>


lemma strip_prefix_Some: "strip_prefix l s = Some s' \<longleftrightarrow> s = l @ s'"
  by (induction l s rule: strip_prefix.induct) auto

lemma strip_prefix_append [simp]: "strip_prefix l (l @ s) = Some s"
  by (simp add: strip_prefix_Some)


lemma in_ms_Star:
  "x \<in> set (ms (Star r) st) \<longleftrightarrow>
     x = st \<or> (\<exists>mid \<in> set (ms r st). length (fst mid) < length (fst st) \<and> x \<in> set (ms (Star r) mid))"
  by (subst ms.simps(7)) auto

lemma in_ms_LazyStar:
  "x \<in> set (ms (LazyStar r) st) \<longleftrightarrow>
     x = st \<or> (\<exists>mid \<in> set (ms r st). length (fst mid) < length (fst st) \<and> x \<in> set (ms (LazyStar r) mid))"
  by (subst ms.simps(8)) auto

lemma ms_suffix: "(s', g') \<in> set (ms r st) \<Longrightarrow> \<exists>p. fst st = p @ s'"
proof (induction r st arbitrary: s' g' rule: ms.induct)
  case (1 st)
  then show ?case by auto
next
  case (2 l s g)
  then show ?case by (cases "strip_prefix l s") (auto simp: strip_prefix_Some)
next
  case (3 k g)
  then show ?case by simp
next
  case (4 k c s g)
  then show ?case by (auto split: if_splits)
next
  case (5 a b st)
  from "5.prems" obtain mid where mid: "mid \<in> set (ms a st)" and fin: "(s', g') \<in> set (ms b mid)"
    by auto
  from "5.IH"(1) [of "fst mid" "snd mid"] mid obtain p where p: "fst st = p @ fst mid" by auto
  from "5.IH"(2) [OF mid fin] obtain q where "fst mid = q @ s'" by auto
  with p show ?case by auto
next
  case (6 a b st)
  then show ?case by auto
next
  case (7 r st)
  from "7.prems" consider "(s', g') = st"
    | mid where "mid \<in> set (ms r st)" "length (fst mid) < length (fst st)" "(s', g') \<in> set (ms (Star r) mid)"
    using in_ms_Star [of "(s', g')" r st] by blast
  then show ?case
  proof cases
    case 1
    then show ?thesis by auto
  next
    case 2
    from "7.IH"(1) [of "fst mid" "snd mid"] 2(1) obtain p where p: "fst st = p @ fst mid" by auto
    from "7.IH"(2) [OF 2(1) 2(2) 2(3)] obtain q where "fst mid = q @ s'" by auto
    with p show ?thesis by auto
  qed
next
  case (8 r st)
  from "8.prems" consider "(s', g') = st"
    | mid where "mid \<in> set (ms r st)" "length (fst mid) < length (fst st)" "(s', g') \<in> set (ms (LazyStar r) mid)"
    using in_ms_LazyStar [of "(s', g')" r st] by blast
  then show ?case
  proof cases
    case 1
    then show ?thesis by auto
  next
    case 2
    from "8.IH"(1) [of "fst mid" "snd mid"] 2(1) obtain p where p: "fst st = p @ fst mid" by auto
    from "8.IH"(2) [OF 2(1) 2(2) 2(3)] obtain q where "fst mid = q @ s'" by auto
    with p show ?thesis by auto
  qed
next
  case (9 i r s g)
  then show ?case by auto
next
  case (10 r st)
  then show ?case by (auto split: if_splits)
next
  case (11 s g)
  then show ?case by (auto split: list.splits if_splits)
qed

lemma match_here_split: "match_here r s = Some (m, s', g) \<Longrightarrow> s = m @ s'"
proof -
  assume a: "match_here r s = Some (m, s', g)"
  then obtain rest where ms: "ms r (s, []) = (s', g) # rest" and m: "m = take (length s - length s') s"
    by (auto simp: match_here_def split: list.splits)
  then have "(s', g) \<in> set (ms r (s, []))" by simp
  from ms_suffix [OF this] obtain p where "s = p @ s'" by auto
  with m show ?thesis by simp
qed



lemma pieces_Nil_None: "match_here r [] = None \<Longrightarrow> pieces r [] = []"
  by (subst pieces.simps) simp

lemma pieces_Cons_None: "match_here r (c # cs) = None \<Longrightarrow> pieces r (c # cs) = Gap c # pieces r cs"
  by (subst pieces.simps) simp

lemma pieces_Nil_Some: "match_here r [] = Some (m, s', g) \<Longrightarrow> pieces r [] = [Hit m g]"
  by (subst pieces.simps) simp

lemma pieces_Cons_empty:
  assumes "match_here r (c # cs) = Some ([], s', g)"
  shows "pieces r (c # cs) = Hit [] g # Gap c # pieces r cs"
proof -
  from match_here_split [OF assms] have "s' = c # cs" by simp
  with assms show ?thesis by (subst pieces.simps) simp
qed

lemma pieces_Cons_Some:
  assumes "match_here r s = Some (m, s', g)" and "m \<noteq> []"
  shows "pieces r s = Hit m g # pieces r s'"
proof -
  from match_here_split [OF assms(1)] assms(2) have "length s' < length s" by simp
  with assms(1) show ?thesis by (subst pieces.simps) simp
qed

lemma pieces_text: "concat (map piece_text (pieces r s)) = s"
proof (induction r s rule: pieces.induct)
  case (1 r s)
  show ?case
  proof (cases "match_here r s")
    case None
    with 1(1) show ?thesis by (cases s) (simp_all add: pieces_Nil_None pieces_Cons_None)
  next
    case (Some a)
    obtain m s' g where a: "a = (m, s', g)" by (cases a)
    from Some a have sp: "s = m @ s'" by (simp add: match_here_split)
    show ?thesis
    proof (cases "m = []")
      case False
      with sp have "length s' < length s" by simp
      with 1(2) [OF Some] a have "concat (map piece_text (pieces r s')) = s'" by simp
      with False Some a sp show ?thesis by (simp add: pieces_Cons_Some)
    next
      case True
      with sp have len: "\<not> length s' < length s" by simp
      show ?thesis
      proof (cases s)
        case Nil
        with Some a True show ?thesis by (simp add: pieces_Nil_Some)
      next
        case (Cons c cs)
        with 1(3) [OF Some] a len have "concat (map piece_text (pieces r cs)) = cs" by simp
        with Cons Some a True show ?thesis by (simp add: pieces_Cons_empty)
      qed
    qed
  qed
qed

lemma apply_pieces_no_hits:
  "hits ps = [] \<Longrightarrow> apply_pieces f ps st = (concat (map piece_text ps), st)"
  by (induction ps rule: hits.induct) auto

lemma ms_caps:
  "(s', g') \<in> set (ms r st)
   \<Longrightarrow> \<exists>h. g' = h @ snd st \<and> fst ` set h \<subseteq> groups r \<and> sure_groups r \<subseteq> fst ` set h"
proof (induction r st arbitrary: s' g' rule: ms.induct)
  case (1 st)
  then show ?case by auto
next
  case (2 l s g)
  then show ?case by (cases "strip_prefix l s") auto
next
  case (3 k g)
  then show ?case by simp
next
  case (4 k c s g)
  then show ?case by (auto split: if_splits)
next
  case (5 a b st)
  from "5.prems" obtain mid where mid: "mid \<in> set (ms a st)" and fin: "(s', g') \<in> set (ms b mid)"
    by auto
  from "5.IH"(1) [of "fst mid" "snd mid"] mid obtain h1
    where h1: "snd mid = h1 @ snd st" "fst ` set h1 \<subseteq> groups a" "sure_groups a \<subseteq> fst ` set h1"
    by auto
  from "5.IH"(2) [OF mid fin] obtain h2
    where h2: "g' = h2 @ snd mid" "fst ` set h2 \<subseteq> groups b" "sure_groups b \<subseteq> fst ` set h2"
    by auto
  from h1 h2 have "g' = (h2 @ h1) @ snd st \<and> fst ` set (h2 @ h1) \<subseteq> groups (Seq a b)
      \<and> sure_groups (Seq a b) \<subseteq> fst ` set (h2 @ h1)"
    by auto
  then show ?case by blast
next
  case (6 a b st)
  from "6.prems" consider "(s', g') \<in> set (ms a st)" | "(s', g') \<in> set (ms b st)" by auto
  then show ?case
  proof cases
    case 1
    from "6.IH"(1) [OF 1] obtain h
      where "g' = h @ snd st" "fst ` set h \<subseteq> groups a" "sure_groups a \<subseteq> fst ` set h" by blast
    then have "g' = h @ snd st \<and> fst ` set h \<subseteq> groups (Alt a b)
        \<and> sure_groups (Alt a b) \<subseteq> fst ` set h" by auto
    then show ?thesis by blast
  next
    case 2
    from "6.IH"(2) [OF 2] obtain h
      where "g' = h @ snd st" "fst ` set h \<subseteq> groups b" "sure_groups b \<subseteq> fst ` set h" by blast
    then have "g' = h @ snd st \<and> fst ` set h \<subseteq> groups (Alt a b)
        \<and> sure_groups (Alt a b) \<subseteq> fst ` set h" by auto
    then show ?thesis by blast
  qed
next
  case (7 r st)
  from "7.prems" consider "(s', g') = st"
    | mid where "mid \<in> set (ms r st)" "length (fst mid) < length (fst st)" "(s', g') \<in> set (ms (Star r) mid)"
    using in_ms_Star [of "(s', g')" r st] by blast
  then show ?case
  proof cases
    case 1
    then show ?thesis by auto
  next
    case 2
    from "7.IH"(1) [of "fst mid" "snd mid"] 2(1) obtain h1
      where h1: "snd mid = h1 @ snd st" "fst ` set h1 \<subseteq> groups r" by auto
    from "7.IH"(2) [OF 2(1) 2(2) 2(3)] obtain h2
      where h2: "g' = h2 @ snd mid" "fst ` set h2 \<subseteq> groups (Star r)" by auto
    from h1 h2 have "g' = (h2 @ h1) @ snd st \<and> fst ` set (h2 @ h1) \<subseteq> groups (Star r)
        \<and> sure_groups (Star r) \<subseteq> fst ` set (h2 @ h1)"
      by auto
    then show ?thesis by blast
  qed
next
  case (8 r st)
  from "8.prems" consider "(s', g') = st"
    | mid where "mid \<in> set (ms r st)" "length (fst mid) < length (fst st)" "(s', g') \<in> set (ms (LazyStar r) mid)"
    using in_ms_LazyStar [of "(s', g')" r st] by blast
  then show ?case
  proof cases
    case 1
    then show ?thesis by auto
  next
    case 2
    from "8.IH"(1) [of "fst mid" "snd mid"] 2(1) obtain h1
      where h1: "snd mid = h1 @ snd st" "fst ` set h1 \<subseteq> groups r" by auto
    from "8.IH"(2) [OF 2(1) 2(2) 2(3)] obtain h2
      where h2: "g' = h2 @ snd mid" "fst ` set h2 \<subseteq> groups (LazyStar r)" by auto
    from h1 h2 have "g' = (h2 @ h1) @ snd st \<and> fst ` set (h2 @ h1) \<subseteq> groups (LazyStar r)
        \<and> sure_groups (LazyStar r) \<subseteq> fst ` set (h2 @ h1)"
      by auto
    then show ?thesis by blast
  qed
next
  case (9 i r s g)
  from "9.prems" obtain s0 g0 where in0: "(s0, g0) \<in> set (ms r (s, g))"
    and eq: "s' = s0" "g' = (i, take (length s - length s0) s) # g0"
    by auto
  from "9.IH" [OF in0] obtain h where h: "g0 = h @ g" "fst ` set h \<subseteq> groups r" "sure_groups r \<subseteq> fst ` set h"
    by auto
  with eq have "g' = ((i, take (length s - length s0) s) # h) @ snd (s, g)
      \<and> fst ` set ((i, take (length s - length s0) s) # h) \<subseteq> groups (Grp i r)
      \<and> sure_groups (Grp i r) \<subseteq> fst ` set ((i, take (length s - length s0) s) # h)"
    by auto
  then show ?case by blast
next
  case (10 r st)
  then show ?case by (auto split: if_splits)
next
  case (11 s g)
  then show ?case by (auto split: list.splits if_splits)
qed

lemma cap_val_defined: "cap_val g i \<noteq> Undefined \<longleftrightarrow> i \<in> fst ` set g"
proof (cases "map_of g i")
  case None
  then have "i \<notin> fst ` set g" by (simp add: map_of_eq_None_iff)
  with None show ?thesis by (simp add: cap_val_def)
next
  case (Some a)
  then have "map_of g i \<noteq> None" by simp
  then have "i \<in> fst ` set g" by (simp add: map_of_eq_None_iff)
  with Some show ?thesis by (simp add: cap_val_def)
qed

lemma cap_val_not_Null: "cap_val g i \<noteq> Null"
  by (simp add: cap_val_def split: option.splits)

lemma hits_pieces_match:
  "(m, g) \<in> set (hits (pieces r s)) \<Longrightarrow> \<exists>pre s'. match_here r (m @ s') = Some (m, s', g) \<and> s = pre @ m @ s'"
proof (induction r s rule: pieces.induct)
  case (1 r s)
  show ?case
  proof (cases "match_here r s")
    case None
    show ?thesis
    proof (cases s)
      case Nil
      with None "1.prems" show ?thesis by (simp add: pieces_Nil_None)
    next
      case (Cons c cs)
      with None "1.prems" have "(m, g) \<in> set (hits (pieces r cs))" by (simp add: pieces_Cons_None)
      from "1.IH"(1) [OF None Cons this] obtain pre s'
        where "match_here r (m @ s') = Some (m, s', g)" "cs = pre @ m @ s'" by blast
      with Cons have "match_here r (m @ s') = Some (m, s', g) \<and> s = (c # pre) @ m @ s'" by simp
      then show ?thesis by blast
    qed
  next
    case (Some a)
    obtain m0 s0 g0 where a: "a = (m0, s0, g0)" by (cases a)
    from Some a have sp: "s = m0 @ s0" by (simp add: match_here_split)
    from Some a sp have here: "match_here r (m0 @ s0) = Some (m0, s0, g0) \<and> s = [] @ m0 @ s0" by simp
    show ?thesis
    proof (cases "m0 = []")
      case False
      with sp have len: "length s0 < length s" by simp
      from False Some a "1.prems" consider "(m, g) = (m0, g0)" | "(m, g) \<in> set (hits (pieces r s0))"
        by (auto simp: pieces_Cons_Some)
      then show ?thesis
      proof cases
        case 1
        with here show ?thesis by blast
      next
        case 2
        from "1.IH"(2) [OF Some _ _ len 2] a obtain pre s'
          where "match_here r (m @ s') = Some (m, s', g)" "s0 = pre @ m @ s'" by blast
        with sp have "match_here r (m @ s') = Some (m, s', g) \<and> s = (m0 @ pre) @ m @ s'" by simp
        then show ?thesis by blast
      qed
    next
      case True
      with sp have len: "\<not> length s0 < length s" by simp
      show ?thesis
      proof (cases s)
        case Nil
        with Some a True "1.prems" have "(m, g) = (m0, g0)" by (simp add: pieces_Nil_Some)
        with here show ?thesis by blast
      next
        case (Cons c cs)
        with Some a True "1.prems" consider "(m, g) = (m0, g0)" | "(m, g) \<in> set (hits (pieces r cs))"
          by (auto simp: pieces_Cons_empty)
        then show ?thesis
        proof cases
          case 1
          with here show ?thesis by blast
        next
          case 2
          from "1.IH"(3) [OF Some _ _ len Cons 2] a obtain pre s'
            where "match_here r (m @ s') = Some (m, s', g)" "cs = pre @ m @ s'" by blast
          with Cons have "match_here r (m @ s') = Some (m, s', g) \<and> s = (c # pre) @ m @ s'" by simp
          then show ?thesis by blast
        qed
      qed
    qed
  qed
qed

lemma hit_states_hits: "(m, g, t) \<in> set (hit_states f ps st) \<Longrightarrow> (m, g) \<in> set (hits ps)"
  by (induction f ps st rule: hit_states.induct) auto

lemma apply_pieces_rel:
  assumes "R st st'"
    and "\<And>m g t t'. (m, g) \<in> set (hits ps) \<Longrightarrow> R t t' \<Longrightarrow>
           fst (f m g t) = fst (f' m g t') \<and> R (snd (f m g t)) (snd (f' m g t'))"
  shows "fst (apply_pieces f ps st) = fst (apply_pieces f' ps st')
         \<and> R (snd (apply_pieces f ps st)) (snd (apply_pieces f' ps st'))"
  using assms
proof (induction ps arbitrary: st st' rule: hits.induct)
  case 1
  then show ?case by simp
next
  case (2 c ps)
  from "2.IH" [OF "2.prems"(1)] "2.prems"(2)
  have "fst (apply_pieces f ps st) = fst (apply_pieces f' ps st')
         \<and> R (snd (apply_pieces f ps st)) (snd (apply_pieces f' ps st'))" by simp
  then show ?case by (simp add: split_beta)
next
  case (3 m g ps)
  from "3.prems"(2) [of m g st st'] "3.prems"(1)
  have step: "fst (f m g st) = fst (f' m g st')" "R (snd (f m g st)) (snd (f' m g st'))" by simp_all
  from "3.IH" [OF step(2)] "3.prems"(2)
  have "fst (apply_pieces f ps (snd (f m g st))) = fst (apply_pieces f' ps (snd (f' m g st')))
        \<and> R (snd (apply_pieces f ps (snd (f m g st)))) (snd (apply_pieces f' ps (snd (f' m g st'))))"
    by simp
  with step(1) show ?case by (simp add: split_beta)
qed

section \<open>The constructor stage\<close>


lemma constructors_fn_eq:
  "constructors_fn filepath m g w =
     (if isClass (index w) (cap_str g 1) then ''constructor'' else m,
      if isClass (index w) (cap_str g 1) = isFileClass filepath (cap_str g 1) then w
      else w\<lparr>console := console w @ [ClassMismatch filepath (cap_str g 1)
                  (isClass (index w) (cap_str g 1)) (isFileClass filepath (cap_str g 1))]\<rparr>)"
  by (simp add: constructors_fn_def Let_def)

lemma constructors_stage_rel:
  assumes "index w' = index w"
  shows "fst (apply_pieces (constructors_fn filepath') ps w') = fst (apply_pieces (constructors_fn filepath) ps w)
         \<and> index (snd (apply_pieces (constructors_fn filepath') ps w')) = index (snd (apply_pieces (constructors_fn filepath) ps w))"
  by (rule apply_pieces_rel [where R = "\<lambda>a b. index a = index b"])
     (use assms in \<open>auto simp: constructors_fn_eq\<close>)

lemma apply_pieces_invariant:
  assumes "P st" and "\<And>m g t. (m, g) \<in> set (hits ps) \<Longrightarrow> P t \<Longrightarrow> P (snd (f m g t))"
  shows "P (snd (apply_pieces f ps st))"
  using assms
proof (induction ps arbitrary: st rule: hits.induct)
  case 1
  then show ?case by simp
next
  case (2 c ps)
  from "2.IH" [OF "2.prems"(1)] "2.prems"(2) have "P (snd (apply_pieces f ps st))" by simp
  then show ?case by (simp add: split_beta)
next
  case (3 m g ps)
  from "3.prems" have "P (snd (f m g st))" by simp
  from "3.IH" [OF this] "3.prems"(2) have "P (snd (apply_pieces f ps (snd (f m g st))))" by simp
  then show ?case by (simp add: split_beta)
qed

text \<open>
  Claim C8. The constructor stage's callback rewrites the matched head to the bare
  constructor marker exactly when the name is a class in the index; a disagreement with
  the file name only adds the class-mismatch report (file, name, both booleans) to the
  console. So the text the stage returns is the same for every file path, the callback
  returns for every match, and neither table changes.
\<close>

theorem constructors_decided_by_isClass:
  "constructors_fn filepath m g w =
     (if isClass (index w) (cap_str g 1) then ''constructor'' else m,
      if isClass (index w) (cap_str g 1) = isFileClass filepath (cap_str g 1) then w
      else w\<lparr>console := console w @ [ClassMismatch filepath (cap_str g 1)
                  (isClass (index w) (cap_str g 1)) (isFileClass filepath (cap_str g 1))]\<rparr>)
   \<and> (index w' = index w \<longrightarrow>
        fst (replace_all re_constructors (constructors_fn filepath') s w')
          = fst (replace_all re_constructors (constructors_fn filepath) s w))
   \<and> index (snd (replace_all re_constructors (constructors_fn filepath) s w)) = index w
   \<and> internal (snd (replace_all re_constructors (constructors_fn filepath) s w)) = internal w"
proof -
  have a: "index (snd (replace_all re_constructors (constructors_fn filepath) s w)) = index w"
    unfolding replace_all_def
    by (rule apply_pieces_invariant [where P = "\<lambda>t. index t = index w"])
       (auto simp: constructors_fn_eq)
  have b: "internal (snd (replace_all re_constructors (constructors_fn filepath) s w)) = internal w"
    unfolding replace_all_def
    by (rule apply_pieces_invariant [where P = "\<lambda>t. internal t = internal w"])
       (auto simp: constructors_fn_eq)
  from a b constructors_stage_rel [of w' w filepath' "pieces re_constructors s" filepath]
  show ?thesis by (simp add: constructors_fn_eq replace_all_def)
qed

theorem constructors_decided_by_isClass_witness:
  "fst (replace_all re_constructors (constructors_fn ''src/Other.js'')
          ''ROS3D.Arrow2 = function(o) {};''
          (world0\<lparr>index := track ''Arrow2'' Null empty_index\<rparr>))
   = ''constructor(o) {};''
   \<and> fst (replace_all re_constructors (constructors_fn ''src/models/Arrow2.js'')
          ''ROS3D.Arrow2 = function(o) {};''
          (world0\<lparr>index := track ''Arrow2'' Null empty_index\<rparr>))
   = ''constructor(o) {};''
   \<and> console (snd (replace_all re_constructors (constructors_fn ''src/Other.js'')
          ''ROS3D.Arrow2 = function(o) {};''
          (world0\<lparr>index := track ''Arrow2'' Null empty_index\<rparr>)))
   = [ClassMismatch ''src/Other.js'' ''Arrow2'' True False]"
proof -
  have c: "console (snd (replace_all re_constructors (constructors_fn ''src/Other.js'')
          ''ROS3D.Arrow2 = function(o) {};''
          (world0\<lparr>index := track ''Arrow2'' Null empty_index\<rparr>)))
   = [ClassMismatch ''src/Other.js'' ''Arrow2'' True False]"
    by code_simp
  have e: "fst (replace_all re_constructors (constructors_fn ''src/models/Arrow2.js'')
          ''ROS3D.Arrow2 = function(o) {};''
          (world0\<lparr>index := track ''Arrow2'' Null empty_index\<rparr>))
   = ''constructor(o) {};''"
    by code_simp
  from constructors_decided_by_isClass
    [of "''src/models/Arrow2.js''" _ _ "world0\<lparr>index := track ''Arrow2'' Null empty_index\<rparr>"
        "world0\<lparr>index := track ''Arrow2'' Null empty_index\<rparr>" "''src/Other.js''"
        "''ROS3D.Arrow2 = function(o) {};''"] e c
  show ?thesis by simp
qed

section \<open>What a pattern matches\<close>


lemma ms_Star_Cls_Nil: "ms (Star (Cls k)) ([], g) = [([], g)]"
  by (subst ms.simps(7)) simp

lemma ms_Star_Cls_Cons:
  "ms (Star (Cls k)) (c # cs, g) =
     (if in_cls k c then ms (Star (Cls k)) (cs, g) else []) @ [(c # cs, g)]"
  by (subst ms.simps(7)) simp

lemma in_ms_Star_Cls:
  "(s', g') \<in> set (ms (Star (Cls k)) (s, g))
   \<longleftrightarrow> g' = g \<and> (\<exists>p. s = p @ s' \<and> (\<forall>c \<in> set p. in_cls k c))"
proof (induction s)
  case Nil
  show ?case by (auto simp: ms_Star_Cls_Nil)
next
  case (Cons c cs)
  show ?case
  proof
    assume "(s', g') \<in> set (ms (Star (Cls k)) (c # cs, g))"
    then consider "(s', g') = (c # cs, g)" | "in_cls k c" "(s', g') \<in> set (ms (Star (Cls k)) (cs, g))"
      by (auto simp: ms_Star_Cls_Cons split: if_splits)
    then show "g' = g \<and> (\<exists>p. c # cs = p @ s' \<and> (\<forall>c \<in> set p. in_cls k c))"
    proof cases
      case 1
      then have "g' = g \<and> c # cs = [] @ s' \<and> (\<forall>c \<in> set []. in_cls k c)" by simp
      then show ?thesis by blast
    next
      case 2
      with Cons obtain p where "g' = g" "cs = p @ s'" "\<forall>c \<in> set p. in_cls k c" by auto
      with 2(1) have "g' = g \<and> c # cs = (c # p) @ s' \<and> (\<forall>c \<in> set (c # p). in_cls k c)" by simp
      then show ?thesis by blast
    qed
  next
    assume r: "g' = g \<and> (\<exists>p. c # cs = p @ s' \<and> (\<forall>c \<in> set p. in_cls k c))"
    then obtain p where p: "c # cs = p @ s'" "\<forall>c \<in> set p. in_cls k c" by blast
    show "(s', g') \<in> set (ms (Star (Cls k)) (c # cs, g))"
    proof (cases "p = []")
      case True
      with p r have "(s', g') = (c # cs, g)" by simp
      then show ?thesis using in_ms_Star [of "(s', g')" "Cls k" "(c # cs, g)"] by blast
    next
      case False
      then obtain c' p' where "p = c' # p'" by (cases p) auto
      with p have q: "c' = c" "cs = p' @ s'" "in_cls k c" "\<forall>c \<in> set p'. in_cls k c" by auto
      with Cons.IH r have "(s', g') \<in> set (ms (Star (Cls k)) (cs, g))" by blast
      with q(3) show ?thesis by (simp add: ms_Star_Cls_Cons)
    qed
  qed
qed

lemma in_ms_Lit: "x \<in> set (ms (Lit l) (s, g)) \<longleftrightarrow> (\<exists>s'. x = (s', g) \<and> s = l @ s')"
  by (cases "strip_prefix l s") (auto simp: strip_prefix_Some)

lemma in_ms_Cls:
  "x \<in> set (ms (Cls k) (s, g)) \<longleftrightarrow> (\<exists>c s'. s = c # s' \<and> in_cls k c \<and> x = (s', g))"
  by (cases s) auto

lemma in_ms_Grp:
  "x \<in> set (ms (Grp i r) (s, g))
   \<longleftrightarrow> (\<exists>p s' g'. x = (s', (i, p) # g') \<and> s = p @ s' \<and> (s', g') \<in> set (ms r (s, g)))"
proof
  assume "x \<in> set (ms (Grp i r) (s, g))"
  then obtain s' g' where in0: "(s', g') \<in> set (ms r (s, g))"
    and x: "x = (s', (i, take (length s - length s') s) # g')"
    by auto
  from ms_suffix [OF in0] obtain p where "s = p @ s'" by auto
  with x in0 have "x = (s', (i, p) # g') \<and> s = p @ s' \<and> (s', g') \<in> set (ms r (s, g))" by simp
  then show "\<exists>p s' g'. x = (s', (i, p) # g') \<and> s = p @ s' \<and> (s', g') \<in> set (ms r (s, g))"
    by blast
next
  assume "\<exists>p s' g'. x = (s', (i, p) # g') \<and> s = p @ s' \<and> (s', g') \<in> set (ms r (s, g))"
  then obtain p s' g' where "x = (s', (i, p) # g')" "s = p @ s'" "(s', g') \<in> set (ms r (s, g))"
    by blast
  then show "x \<in> set (ms (Grp i r) (s, g))" by force
qed

lemma in_ms_Alt: "x \<in> set (ms (Alt a b) st) \<longleftrightarrow> x \<in> set (ms a st) \<or> x \<in> set (ms b st)"
  by simp

lemma in_ms_OneOrMore_Cls:
  "(s', g') \<in> set (ms (OneOrMore (Cls k)) (s, g))
   \<longleftrightarrow> g' = g \<and> (\<exists>p. p \<noteq> [] \<and> s = p @ s' \<and> (\<forall>c \<in> set p. in_cls k c))"
proof
  assume "(s', g') \<in> set (ms (OneOrMore (Cls k)) (s, g))"
  then obtain c cs where c: "s = c # cs" "in_cls k c" "(s', g') \<in> set (ms (Star (Cls k)) (cs, g))"
    by (auto simp: OneOrMore_def in_ms_Cls)
  then obtain p where "g' = g" "cs = p @ s'" "\<forall>c \<in> set p. in_cls k c"
    by (auto simp: in_ms_Star_Cls)
  with c have "g' = g \<and> c # p \<noteq> [] \<and> s = (c # p) @ s' \<and> (\<forall>c \<in> set (c # p). in_cls k c)" by simp
  then show "g' = g \<and> (\<exists>p. p \<noteq> [] \<and> s = p @ s' \<and> (\<forall>c \<in> set p. in_cls k c))" by blast
next
  assume "g' = g \<and> (\<exists>p. p \<noteq> [] \<and> s = p @ s' \<and> (\<forall>c \<in> set p. in_cls k c))"
  then obtain c p where g: "g' = g" and s: "s = (c # p) @ s'" and k: "in_cls k c" "\<forall>c \<in> set p. in_cls k c"
    by (metis list.set_intros(1,2) neq_Nil_conv)
  from k(2) g have "(s', g') \<in> set (ms (Star (Cls k)) (p @ s', g))"
    by (auto simp: in_ms_Star_Cls)
  with s k(1) show "(s', g') \<in> set (ms (OneOrMore (Cls k)) (s, g))"
    by (auto simp: OneOrMore_def)
qed

lemma match_here_in_ms:
  "match_here r s = Some (m, s', g) \<Longrightarrow> (s', g) \<in> set (ms r (s, [])) \<and> s = m @ s'"
proof -
  assume a: "match_here r s = Some (m, s', g)"
  then obtain rest where "ms r (s, []) = (s', g) # rest"
    by (auto simp: match_here_def split: list.splits)
  then have "(s', g) \<in> set (ms r (s, []))" by simp
  with match_here_split [OF a] show ?thesis by simp
qed

lemma in_ms_Seq_pair:
  "(s', g') \<in> set (ms (Seq a b) (s, g))
   \<longleftrightarrow> (\<exists>s1 g1. (s1, g1) \<in> set (ms a (s, g)) \<and> (s', g') \<in> set (ms b (s1, g1)))"
  by auto

lemmas in_ms_simps =
  in_ms_Seq_pair in_ms_Alt in_ms_Lit in_ms_Cls in_ms_Grp in_ms_Star_Cls in_ms_OneOrMore_Cls

lemma pieces_Some_cases:
  assumes "match_here r s = Some (m, s', g)"
  shows "\<exists>ps. pieces r s = Hit m g # ps \<and> concat (map piece_text ps) = s'"
proof (cases "m = []")
  case False
  from pieces_Cons_Some [OF assms False] pieces_text [of r s'] show ?thesis by simp
next
  case True
  with match_here_split [OF assms] have s: "s' = s" by simp
  show ?thesis
  proof (cases s)
    case Nil
    with assms True s show ?thesis by (simp add: pieces_Nil_Some)
  next
    case (Cons c cs)
    with assms True have "pieces r s = Hit [] g # Gap c # pieces r cs" by (simp add: pieces_Cons_empty)
    with True s Cons pieces_text [of r cs] show ?thesis by simp
  qed
qed

lemma pieces_cover:
  assumes "match_here r u = Some (m0, s0, g0)"
  shows "\<exists>ps1 m g ps2. pieces r (pre @ u) = ps1 @ Hit m g # ps2
           \<and> pre @ u = concat (map piece_text ps1) @ m @ concat (map piece_text ps2)
           \<and> match_here r (m @ concat (map piece_text ps2)) = Some (m, concat (map piece_text ps2), g)
           \<and> ((concat (map piece_text ps1) = pre \<and> m = m0 \<and> g = g0)
               \<or> (length (concat (map piece_text ps1)) < length pre
                   \<and> length pre < length (concat (map piece_text ps1)) + length m))"
proof (induction "length pre" arbitrary: pre rule: less_induct)
  case less
  show ?case
  proof (cases pre)
    case Nil
    from pieces_Some_cases [OF assms] obtain ps where
      "pieces r u = Hit m0 g0 # ps" "concat (map piece_text ps) = s0" by blast
    with Nil match_here_split [OF assms]
    have "pieces r (pre @ u) = [] @ Hit m0 g0 # ps
           \<and> pre @ u = concat (map piece_text []) @ m0 @ concat (map piece_text ps)
           \<and> match_here r (m0 @ concat (map piece_text ps)) = Some (m0, concat (map piece_text ps), g0)
           \<and> concat (map piece_text []) = pre \<and> m0 = m0 \<and> g0 = g0"
      using assms by simp
    then show ?thesis by blast
  next
    case (Cons p pre')
    have ih: "\<exists>ps1 m g ps2. pieces r (q @ u) = ps1 @ Hit m g # ps2
           \<and> q @ u = concat (map piece_text ps1) @ m @ concat (map piece_text ps2)
           \<and> match_here r (m @ concat (map piece_text ps2)) = Some (m, concat (map piece_text ps2), g)
           \<and> ((concat (map piece_text ps1) = q \<and> m = m0 \<and> g = g0)
               \<or> (length (concat (map piece_text ps1)) < length q
                   \<and> length q < length (concat (map piece_text ps1)) + length m))"
      if "length q < length pre" for q
      using less [OF that] .
    show ?thesis
    proof (cases "match_here r (pre @ u)")
      case None
      with Cons have e: "pieces r (pre @ u) = Gap p # pieces r (pre' @ u)"
        by (simp add: pieces_Cons_None)
      from ih [of pre'] Cons obtain ps1 m g ps2 where
        a: "pieces r (pre' @ u) = ps1 @ Hit m g # ps2"
           "pre' @ u = concat (map piece_text ps1) @ m @ concat (map piece_text ps2)"
           "match_here r (m @ concat (map piece_text ps2)) = Some (m, concat (map piece_text ps2), g)"
           "(concat (map piece_text ps1) = pre' \<and> m = m0 \<and> g = g0)
               \<or> (length (concat (map piece_text ps1)) < length pre'
                   \<and> length pre' < length (concat (map piece_text ps1)) + length m)"
        by auto
      with e Cons have "pieces r (pre @ u) = (Gap p # ps1) @ Hit m g # ps2
           \<and> pre @ u = concat (map piece_text (Gap p # ps1)) @ m @ concat (map piece_text ps2)
           \<and> match_here r (m @ concat (map piece_text ps2)) = Some (m, concat (map piece_text ps2), g)
           \<and> ((concat (map piece_text (Gap p # ps1)) = pre \<and> m = m0 \<and> g = g0)
               \<or> (length (concat (map piece_text (Gap p # ps1))) < length pre
                   \<and> length pre < length (concat (map piece_text (Gap p # ps1))) + length m))"
        by auto
      then show ?thesis by blast
    next
      case (Some a)
      obtain m1 s1 g1 where a1: "a = (m1, s1, g1)" by (cases a)
      with Some have mh: "match_here r (pre @ u) = Some (m1, s1, g1)" by simp
      from match_here_split [OF mh] have sp: "pre @ u = m1 @ s1" .
      show ?thesis
      proof (cases "m1 = []")
        case True
        with mh Cons have e: "pieces r (pre @ u) = Hit [] g1 # Gap p # pieces r (pre' @ u)"
          by (simp add: pieces_Cons_empty)
        from ih [of pre'] Cons obtain ps1 m g ps2 where
          a: "pieces r (pre' @ u) = ps1 @ Hit m g # ps2"
             "pre' @ u = concat (map piece_text ps1) @ m @ concat (map piece_text ps2)"
             "match_here r (m @ concat (map piece_text ps2)) = Some (m, concat (map piece_text ps2), g)"
             "(concat (map piece_text ps1) = pre' \<and> m = m0 \<and> g = g0)
                 \<or> (length (concat (map piece_text ps1)) < length pre'
                     \<and> length pre' < length (concat (map piece_text ps1)) + length m)"
          by auto
        with e Cons have "pieces r (pre @ u) = (Hit [] g1 # Gap p # ps1) @ Hit m g # ps2
             \<and> pre @ u = concat (map piece_text (Hit [] g1 # Gap p # ps1)) @ m @ concat (map piece_text ps2)
             \<and> match_here r (m @ concat (map piece_text ps2)) = Some (m, concat (map piece_text ps2), g)
             \<and> ((concat (map piece_text (Hit [] g1 # Gap p # ps1)) = pre \<and> m = m0 \<and> g = g0)
                 \<or> (length (concat (map piece_text (Hit [] g1 # Gap p # ps1))) < length pre
                     \<and> length pre < length (concat (map piece_text (Hit [] g1 # Gap p # ps1))) + length m))"
          by auto
        then show ?thesis by blast
      next
        case False
        from pieces_Cons_Some [OF mh False] have e: "pieces r (pre @ u) = Hit m1 g1 # pieces r s1" .
        show ?thesis
        proof (cases "length pre < length m1")
          case True
          from e sp pieces_text [of r s1] Cons True
          have "pieces r (pre @ u) = [] @ Hit m1 g1 # pieces r s1
             \<and> pre @ u = concat (map piece_text []) @ m1 @ concat (map piece_text (pieces r s1))
             \<and> match_here r (m1 @ concat (map piece_text (pieces r s1)))
                   = Some (m1, concat (map piece_text (pieces r s1)), g1)
             \<and> length (concat (map piece_text [])) < length pre
             \<and> length pre < length (concat (map piece_text [])) + length m1"
            using mh by simp
          then show ?thesis by blast
        next
          case False
          then have le: "length m1 \<le> length pre" by simp
          with sp have "m1 = take (length m1) pre" "s1 = drop (length m1) pre @ u"
            by (metis append_eq_append_conv_if append_eq_conv_conj)+
          then obtain q where q: "pre = m1 @ q" "s1 = q @ u"
            by (metis append_take_drop_id)
          with \<open>m1 \<noteq> []\<close> have "length q < length pre" by simp
          from ih [OF this] q obtain ps1 m g ps2 where
            a: "pieces r s1 = ps1 @ Hit m g # ps2"
               "s1 = concat (map piece_text ps1) @ m @ concat (map piece_text ps2)"
               "match_here r (m @ concat (map piece_text ps2)) = Some (m, concat (map piece_text ps2), g)"
               "(concat (map piece_text ps1) = q \<and> m = m0 \<and> g = g0)
                   \<or> (length (concat (map piece_text ps1)) < length q
                       \<and> length q < length (concat (map piece_text ps1)) + length m)"
            by auto
          with e sp q have "pieces r (pre @ u) = (Hit m1 g1 # ps1) @ Hit m g # ps2
             \<and> pre @ u = concat (map piece_text (Hit m1 g1 # ps1)) @ m @ concat (map piece_text ps2)
             \<and> match_here r (m @ concat (map piece_text ps2)) = Some (m, concat (map piece_text ps2), g)
             \<and> ((concat (map piece_text (Hit m1 g1 # ps1)) = pre \<and> m = m0 \<and> g = g0)
                 \<or> (length (concat (map piece_text (Hit m1 g1 # ps1))) < length pre
                     \<and> length pre < length (concat (map piece_text (Hit m1 g1 # ps1))) + length m))"
            by auto
          then show ?thesis by blast
        qed
      qed
    qed
  qed
qed


lemma hd_concat_map:
  "concat (map f xs) \<noteq> [] \<Longrightarrow> \<exists>x \<in> set xs. f x \<noteq> [] \<and> hd (concat (map f xs)) = hd (f x)"
proof (induction xs)
  case Nil
  then show ?case by simp
next
  case (Cons a xs)
  show ?case
  proof (cases "f a = []")
    case True
    with Cons.prems have "concat (map f xs) \<noteq> []" by simp
    from Cons.IH [OF this] obtain x where "x \<in> set xs" "f x \<noteq> []" "hd (concat (map f xs)) = hd (f x)"
      by blast
    with True have "x \<in> set (a # xs) \<and> f x \<noteq> [] \<and> hd (concat (map f (a # xs))) = hd (f x)" by simp
    then show ?thesis by blast
  next
    case False
    then have "a \<in> set (a # xs) \<and> f a \<noteq> [] \<and> hd (concat (map f (a # xs))) = hd (f a)" by simp
    then show ?thesis by blast
  qed
qed

lemma ms_Seq_first:
  assumes "ms (Seq a b) st \<noteq> []"
  shows "\<exists>mid \<in> set (ms a st). ms b mid \<noteq> [] \<and> hd (ms (Seq a b) st) = hd (ms b mid)"
  using hd_concat_map [of "ms b" "ms a st"] assms by simp

lemma ms_Star_Cls_first:
  "ms (Star (Cls k)) (s, g) \<noteq> [] \<and> hd (ms (Star (Cls k)) (s, g)) = (dropWhile (in_cls k) s, g)"
proof (induction s)
  case Nil
  show ?case by (simp add: ms_Star_Cls_Nil)
next
  case (Cons c cs)
  then show ?case by (simp add: ms_Star_Cls_Cons)
qed

lemma at_line_end_dropWhile: "at_line_end (dropWhile (in_cls AnyChar) s)"
proof (cases "dropWhile (in_cls AnyChar) s")
  case Nil
  show ?thesis unfolding at_line_end_def Nil by simp
next
  case (Cons c cs)
  from hd_dropWhile [of "in_cls AnyChar" s] Cons have "\<not> in_cls AnyChar c" by simp
  then show ?thesis unfolding at_line_end_def Cons by simp
qed

lemma ends_line_Seq:
  assumes "\<And>mid. ms b mid \<noteq> [] \<Longrightarrow> at_line_end (fst (hd (ms b mid)))"
    and "ms (Seq a b) st \<noteq> []"
  shows "at_line_end (fst (hd (ms (Seq a b) st)))"
  using ms_Seq_first [OF assms(2)] assms(1) by auto

lemma ends_line_rest:
  "ms (Grp i (Star (Cls AnyChar))) mid \<noteq> []
   \<Longrightarrow> at_line_end (fst (hd (ms (Grp i (Star (Cls AnyChar))) mid)))"
proof -
  obtain s g where mid: "mid = (s, g)" by (cases mid)
  from ms_Star_Cls_first [of AnyChar s g] obtain rest where
    "ms (Star (Cls AnyChar)) (s, g) = (dropWhile (in_cls AnyChar) s, g) # rest"
    by (cases "ms (Star (Cls AnyChar)) (s, g)") auto
  with mid show ?thesis by (simp add: at_line_end_dropWhile)
qed

lemma span_unique:
  assumes "\<forall>x \<in> set xs. P x" and "ys = [] \<or> \<not> P (hd ys)"
  shows "takeWhile P (xs @ ys) = xs \<and> dropWhile P (xs @ ys) = ys"
proof (cases ys)
  case Nil
  with assms(1) show ?thesis by simp
next
  case (Cons y ys')
  with assms show ?thesis by (simp add: takeWhile_append2 dropWhile_append2)
qed

lemma span_align:
  assumes "xs @ ys = xs' @ ys'"
    and "\<forall>x \<in> set xs. P x" "ys = [] \<or> \<not> P (hd ys)"
    and "\<forall>x \<in> set xs'. P x" "ys' = [] \<or> \<not> P (hd ys')"
  shows "xs = xs' \<and> ys = ys'"
proof -
  from span_unique [OF assms(2,3)]
  have a: "takeWhile P (xs @ ys) = xs" "dropWhile P (xs @ ys) = ys" by blast+
  from span_unique [OF assms(4,5)]
  have b: "takeWhile P (xs' @ ys') = xs'" "dropWhile P (xs' @ ys') = ys'" by blast+
  from a(1) b(1) have "xs = xs'" unfolding assms(1) by (rule trans [OF sym])
  moreover from a(2) b(2) have "ys = ys'" unfolding assms(1) by (rule trans [OF sym])
  ultimately show ?thesis by blast
qed

section \<open>The superclass-call stage\<close>

lemma split_on_nonempty: "split_on P s \<noteq> []"
  by (induction s) (auto split: list.splits)

lemma split_on_append_plain:
  "\<forall>c \<in> set a. \<not> P c \<Longrightarrow> split_on P (a @ y) = (a @ hd (split_on P y)) # tl (split_on P y)"
proof (induction a)
  case Nil
  then show ?case using split_on_nonempty [of P y] by simp
next
  case (Cons c a)
  then show ?case by simp
qed

lemma split_on_plain: "\<forall>c \<in> set a. \<not> P c \<Longrightarrow> split_on P a = [a]"
  using split_on_append_plain [of a P "[]"] by simp

lemma split_on_args:
  assumes "\<forall>a \<in> set args. plain a" and "plain tail"
  shows "split_on (\<lambda>c. c = CHR '','' \<or> c = CHR '')'')
           (concat (map ((#) CHR '','') args) @ CHR '')'' # tail) = [] # args @ [tail]"
  using assms(1)
proof (induction args)
  case Nil
  from assms(2) have "split_on (\<lambda>c. c = CHR '','' \<or> c = CHR '')'') tail = [tail]"
    by (intro split_on_plain) (auto simp: plain_def)
  then show ?case by simp
next
  case (Cons a args)
  then have ih: "split_on (\<lambda>c. c = CHR '','' \<or> c = CHR '')'')
           (concat (map ((#) CHR '','') args) @ CHR '')'' # tail) = [] # args @ [tail]" by simp
  from Cons.prems have "\<forall>c \<in> set a. \<not> (c = CHR '','' \<or> c = CHR '')'')" by (auto simp: plain_def)
  from split_on_append_plain [OF this, of "concat (map ((#) CHR '','') args) @ CHR '')'' # tail"] ih
  show ?case by simp
qed

lemma super_args_plain:
  assumes "\<forall>a \<in> set args. plain a" and "plain tail"
  shows "super_args (concat (map ((#) CHR '','') args) @ CHR '')'' # tail) = trim (join '','' args)"
  unfolding super_args_def split_on_args [OF assms] by simp

lemma parentConstructors_match_ends_line:
  assumes "match_here re_parentConstructors u = Some (m, s', g)"
  shows "at_line_end s'"
proof -
  from assms obtain rest where r: "ms re_parentConstructors (u, []) = (s', g) # rest"
    by (auto simp: match_here_def split: list.splits)
  then have ne: "ms re_parentConstructors (u, []) \<noteq> []" by simp
  have "at_line_end (fst (hd (ms re_parentConstructors (u, []))))"
    using ne unfolding re_parentConstructors_def seqs.simps
    by (intro ends_line_Seq ends_line_rest)
  with r show ?thesis by simp
qed

lemma wordish_not_space: "wordish c \<Longrightarrow> \<not> is_space c"
  by (auto simp: wordish_def is_word_def is_space_def)

lemma wordish_not_terminator: "wordish c \<Longrightarrow> \<not> is_line_terminator c"
  by (auto simp: wordish_def is_word_def is_line_terminator_def)

lemma parentConstructors_in_ms:
  assumes "(s', g) \<in> set (ms re_parentConstructors (s, []))"
  shows "\<exists>c ind ref kw rest.
           s = c # ind @ ref @ ''.call('' @ kw @ rest @ s'
           \<and> (c = CHR 0x0D \<or> c = CHR ''\<newline>'') \<and> (kw = ''this'' \<or> kw = ''that'')
           \<and> (\<forall>x \<in> set ind. is_space x) \<and> ref \<noteq> [] \<and> (\<forall>x \<in> set ref. wordish x)
           \<and> (\<forall>x \<in> set rest. \<not> is_line_terminator x)
           \<and> g = [(3, rest), (2, ref), (1, ind)]"
proof -
  from assms obtain c ind ref kw rest where
    "s = c # ind @ ref @ ''.call('' @ kw @ rest @ s'" "c \<in> set cr_lf" "kw = ''this'' \<or> kw = ''that''"
    "\<forall>x \<in> set ind. in_cls Space x" "ref \<noteq> []" "\<forall>x \<in> set ref. in_cls (Union Word (OneOf ''.'')) x"
    "\<forall>x \<in> set rest. in_cls AnyChar x" "g = [(3, rest), (2, ref), (1, ind)]"
    unfolding re_parentConstructors_def seqs.simps in_ms_simps by auto
  then have "s = c # ind @ ref @ ''.call('' @ kw @ rest @ s'
           \<and> (c = CHR 0x0D \<or> c = CHR ''\<newline>'') \<and> (kw = ''this'' \<or> kw = ''that'')
           \<and> (\<forall>x \<in> set ind. is_space x) \<and> ref \<noteq> [] \<and> (\<forall>x \<in> set ref. wordish x)
           \<and> (\<forall>x \<in> set rest. \<not> is_line_terminator x)
           \<and> g = [(3, rest), (2, ref), (1, ind)]"
    by (auto simp: cr_lf_def wordish_def)
  then show ?thesis by blast
qed

lemma parentConstructors_statement_in_ms:
  assumes "c = CHR 0x0D \<or> c = CHR ''\<newline>''" "\<forall>x \<in> set ind. is_space x"
    "ref \<noteq> []" "\<forall>x \<in> set ref. wordish x" "kw = ''this'' \<or> kw = ''that''"
    "\<forall>x \<in> set rest. \<not> is_line_terminator x"
  shows "(post, [(3, rest), (2, ref), (1, ind)])
           \<in> set (ms re_parentConstructors (c # ind @ ref @ ''.call('' @ kw @ rest @ post, []))"
proof -
  have 1: "(ind @ ref @ ''.call('' @ kw @ rest @ post, [])
            \<in> set (ms (Cls (OneOf cr_lf)) (c # ind @ ref @ ''.call('' @ kw @ rest @ post, []))"
    using assms(1) by (auto simp: cr_lf_def)
  have 2: "(ref @ ''.call('' @ kw @ rest @ post, [(1, ind)])
            \<in> set (ms (Grp 1 (Star (Cls Space))) (ind @ ref @ ''.call('' @ kw @ rest @ post, []))"
    unfolding in_ms_Grp in_ms_Star_Cls using assms(2) by auto
  have 3: "(''.call('' @ kw @ rest @ post, [(2, ref), (1, ind)])
            \<in> set (ms (Grp 2 (OneOrMore (Cls (Union Word (OneOf ''.'')))))
                     (ref @ ''.call('' @ kw @ rest @ post, [(1, ind)]))"
    unfolding in_ms_Grp in_ms_OneOrMore_Cls using assms(3,4) by (auto simp: wordish_def)
  have 4: "(kw @ rest @ post, [(2, ref), (1, ind)])
            \<in> set (ms (Lit ''.call('') (''.call('' @ kw @ rest @ post, [(2, ref), (1, ind)]))"
    unfolding in_ms_Lit by simp
  have 5: "(rest @ post, [(2, ref), (1, ind)])
            \<in> set (ms (Alt (Lit ''this'') (Lit ''that'')) (kw @ rest @ post, [(2, ref), (1, ind)]))"
    unfolding in_ms_Alt in_ms_Lit using assms(5) by auto
  have 6: "(post, [(3, rest), (2, ref), (1, ind)])
            \<in> set (ms (Grp 3 (Star (Cls AnyChar))) (rest @ post, [(2, ref), (1, ind)]))"
    unfolding in_ms_Grp in_ms_Star_Cls using assms(6) by auto
  show ?thesis
    unfolding re_parentConstructors_def seqs.simps in_ms_Seq_pair
    using 1 2 3 4 5 6 by blast
qed

lemma call_align:
  assumes eq: "W' @ ref' @ ''.call('' @ kw' @ rest' @ t = W @ ref @ ''.call('' @ kw @ rest @ post"
    and W: "\<forall>x \<in> set W. is_space x" "\<forall>x \<in> set W'. is_space x"
    and ref: "ref \<noteq> []" "\<forall>x \<in> set ref. wordish x" "ref' \<noteq> []" "\<forall>x \<in> set ref'. wordish x"
    and kw: "kw = ''this'' \<or> kw = ''that''" "kw' = ''this'' \<or> kw' = ''that''"
    and rest: "\<forall>x \<in> set rest. \<not> is_line_terminator x" "\<forall>x \<in> set rest'. \<not> is_line_terminator x"
    and ends: "at_line_end t" "at_line_end post"
  shows "W' = W \<and> ref' = ref \<and> kw' = kw \<and> rest' = rest \<and> t = post"
proof -
  from ref have h: "\<not> is_space (hd (ref @ ''.call('' @ kw @ rest @ post))"
    "\<not> is_space (hd (ref' @ ''.call('' @ kw' @ rest' @ t))"
    by (cases ref; cases ref'; simp add: wordish_not_space)+
  from span_align [of W' "ref' @ ''.call('' @ kw' @ rest' @ t" W "ref @ ''.call('' @ kw @ rest @ post" is_space]
    eq W h
  have w: "W' = W" and e1: "ref' @ ''.call('' @ kw' @ rest' @ t = ref @ ''.call('' @ kw @ rest @ post"
    by auto
  have dc: "\<forall>x \<in> set ''.call''. wordish x" by (simp add: wordish_def is_word_def)
  have np: "\<not> wordish CHR ''(''" by (simp add: wordish_def is_word_def)
  from e1 have e1': "(ref' @ ''.call'') @ (CHR ''('' # kw' @ rest' @ t) = (ref @ ''.call'') @ (CHR ''('' # kw @ rest @ post)"
    by simp
  from span_align [OF e1', of wordish] ref dc np
  have r: "ref' @ ''.call'' = ref @ ''.call''" and e2: "kw' @ rest' @ t = kw @ rest @ post"
    by auto
  from r have r': "ref' = ref" by simp
  from kw have l: "length kw = 4" "length kw' = 4" by auto
  from e2 have "take 4 (kw' @ rest' @ t) = take 4 (kw @ rest @ post)" by simp
  with l have k: "kw' = kw" by simp
  with e2 have e3: "rest' @ t = rest @ post" by simp
  from ends have "t = [] \<or> \<not> \<not> is_line_terminator (hd t)" "post = [] \<or> \<not> \<not> is_line_terminator (hd post)"
    by (auto simp: at_line_end_def split: list.splits)
  from span_align [OF e3 rest(2) this(1) rest(1) this(2)] have "rest' = rest \<and> t = post" .
  with w r' k show ?thesis by blast
qed


lemma split_before_terminator:
  assumes "A @ Z = y @ c # w" and "c \<notin> set Z"
  shows "\<exists>i2. A = y @ c # i2 \<and> w = i2 @ Z"
proof -
  from assms(1) obtain us where "(A = y @ us \<and> us @ Z = c # w) \<or> (A @ us = y \<and> Z = us @ c # w)"
    unfolding append_eq_append_conv2 by blast
  then show ?thesis
  proof
    assume a: "A = y @ us \<and> us @ Z = c # w"
    show ?thesis
    proof (cases us)
      case Nil
      with a assms(2) show ?thesis by auto
    next
      case (Cons u us')
      with a have "A = y @ c # us' \<and> w = us' @ Z" by simp
      then show ?thesis by blast
    qed
  next
    assume "A @ us = y \<and> Z = us @ c # w"
    with assms(2) show ?thesis by auto
  qed
qed

lemma parentConstructors_covers_statement:
  assumes s: "s = pre @ c # ind @ ref @ ''.call('' @ kw @ rest @ post"
    and c: "c = CHR 0x0D \<or> c = CHR ''\<newline>''"
    and ind: "\<forall>x \<in> set ind. is_space x"
    and ref: "ref \<noteq> []" "\<forall>x \<in> set ref. wordish x"
    and kw: "kw = ''this'' \<or> kw = ''that''"
    and rest: "\<forall>x \<in> set rest. \<not> is_line_terminator x"
    and post: "at_line_end post"
  shows "\<exists>ps1 m g ps2 x. pieces re_parentConstructors s = ps1 @ Hit m g # ps2
           \<and> concat (map piece_text ps2) = post
           \<and> m = x @ c # ind @ ref @ ''.call('' @ kw @ rest
           \<and> cap_val g 2 = Str ref \<and> cap_val g 3 = Str rest"
proof -
  let ?u = "c # ind @ ref @ ''.call('' @ kw @ rest @ post"
  from parentConstructors_statement_in_ms [OF c ind ref kw rest, of post]
  have "ms re_parentConstructors (?u, []) \<noteq> []" by (metis empty_iff empty_set)
  then obtain m0 s0 g0 where "match_here re_parentConstructors ?u = Some (m0, s0, g0)"
    by (cases "ms re_parentConstructors (?u, [])") (auto simp: match_here_def)
  from pieces_cover [OF this, of pre] s obtain ps1 m g ps2 where
    pc: "pieces re_parentConstructors s = ps1 @ Hit m g # ps2"
    and tx: "pre @ ?u = concat (map piece_text ps1) @ m @ concat (map piece_text ps2)"
    and mh: "match_here re_parentConstructors (m @ concat (map piece_text ps2))
               = Some (m, concat (map piece_text ps2), g)"
    and pos: "concat (map piece_text ps1) = pre
               \<or> (length (concat (map piece_text ps1)) < length pre
                   \<and> length pre < length (concat (map piece_text ps1)) + length m)"
    by auto
  let ?p1 = "concat (map piece_text ps1)" and ?t = "concat (map piece_text ps2)"
  from match_here_in_ms [OF mh] have "(?t, g) \<in> set (ms re_parentConstructors (m @ ?t, []))" by simp
  from parentConstructors_in_ms [OF this] obtain c' ind' ref' kw' rest' where
    sh: "m @ ?t = c' # ind' @ ref' @ ''.call('' @ kw' @ rest' @ ?t"
        "kw' = ''this'' \<or> kw' = ''that''" "\<forall>x \<in> set ind'. is_space x" "ref' \<noteq> []"
        "\<forall>x \<in> set ref'. wordish x" "\<forall>x \<in> set rest'. \<not> is_line_terminator x"
        "g = [(3, rest'), (2, ref'), (1, ind')]"
    by blast
  from sh(1) have m: "m = c' # ind' @ ref' @ ''.call('' @ kw' @ rest'" by simp
  from parentConstructors_match_ends_line [OF mh] have te: "at_line_end ?t" .
  from pos show ?thesis
  proof
    assume ex: "?p1 = pre"
    with tx have "m @ ?t = ?u" by simp
    with m have cc: "c' = c"
      and e: "ind' @ ref' @ ''.call('' @ kw' @ rest' @ ?t = ind @ ref @ ''.call('' @ kw @ rest @ post"
      by simp_all
    from call_align [OF e ind sh(3) ref sh(4,5) kw sh(2) rest sh(6) te post]
    have al: "ind' = ind" "ref' = ref" "kw' = kw" "rest' = rest" "?t = post" by blast+
    with m cc sh(7) pc
    have "pieces re_parentConstructors s = ps1 @ Hit m g # ps2
           \<and> ?t = post
           \<and> m = [] @ c # ind @ ref @ ''.call('' @ kw @ rest
           \<and> cap_val g 2 = Str ref \<and> cap_val g 3 = Str rest"
      by (simp add: cap_val_def)
    then show ?thesis by blast
  next
    assume ov: "length ?p1 < length pre \<and> length pre < length ?p1 + length m"
    from tx have "take (length ?p1) pre = ?p1"
      using ov by (metis append_eq_append_conv_if less_imp_le_nat)
    then obtain y where y: "pre = ?p1 @ y" by (metis append_take_drop_id)
    with ov have ylen: "y \<noteq> []" "length y < length m" by auto
    from tx y have yu: "y @ ?u = m @ ?t" by simp
    with ylen have "take (length y) m = y" by (metis append_eq_append_conv_if less_imp_le_nat)
    then obtain v where v: "m = y @ v" by (metis append_take_drop_id)
    with yu have uv: "?u = v @ ?t" by simp
    from v ylen have "v \<noteq> []" by auto
    with uv obtain v' where v': "v = c # v'" by (cases v) auto
    let ?Z = "ref' @ ''.call('' @ kw' @ rest'"
    have a1: "\<forall>x \<in> set ref'. \<not> is_line_terminator x"
      using sh(5) wordish_not_terminator by blast
    have a2: "\<forall>x \<in> set ''.call(''. \<not> is_line_terminator x"
      by (simp add: is_line_terminator_def)
    have a3: "\<forall>x \<in> set kw'. \<not> is_line_terminator x"
      using sh(2) by (auto simp: is_line_terminator_def)
    have lt: "is_line_terminator c"
      using c by (auto simp: is_line_terminator_def)
    have "\<forall>x \<in> set ?Z. \<not> is_line_terminator x"
      unfolding set_append using a1 a2 a3 sh(6) by blast
    with lt have cz: "c \<notin> set ?Z" by blast
    from m v v' have "(c' # ind') @ ?Z = y @ c # v'" by simp
    from split_before_terminator [OF this cz] obtain i2 where
      i2: "c' # ind' = y @ c # i2" "v' = i2 @ ?Z" by blast
    from i2(1) sh(3) ylen(1) have sp2: "\<forall>x \<in> set i2. is_space x"
      by (cases y) auto
    from uv v' i2(2)
    have e: "i2 @ ref' @ ''.call('' @ kw' @ rest' @ ?t = ind @ ref @ ''.call('' @ kw @ rest @ post"
      by simp
    from call_align [OF e ind sp2 ref sh(4,5) kw sh(2) rest sh(6) te post]
    have al: "i2 = ind" "ref' = ref" "kw' = kw" "rest' = rest" "?t = post" by blast+
    with v v' i2(2) sh(7) pc
    have "pieces re_parentConstructors s = ps1 @ Hit m g # ps2
           \<and> ?t = post
           \<and> m = y @ c # ind @ ref @ ''.call('' @ kw @ rest
           \<and> cap_val g 2 = Str ref \<and> cap_val g 3 = Str rest"
      by (simp add: cap_val_def)
    then show ?thesis by blast
  qed
qed


lemma gaps_append: "gaps (ps1 @ ps2) = gaps ps1 @ gaps ps2"
  by (induction ps1 rule: gaps.induct) auto

lemma hits_append: "hits (ps1 @ ps2) = hits ps1 @ hits ps2"
  by (induction ps1 rule: hits.induct) auto

lemma parentConstructors_hit_shape:
  assumes "(m, g) \<in> set (hits (pieces re_parentConstructors s))"
  shows "\<exists>c ind ref kw rest.
           m = c # ind @ ref @ ''.call('' @ kw @ rest
           \<and> (c = CHR 0x0D \<or> c = CHR ''\<newline>'') \<and> (kw = ''this'' \<or> kw = ''that'')
           \<and> (\<forall>x \<in> set rest. \<not> is_line_terminator x)
           \<and> g = [(3, rest), (2, ref), (1, ind)]"
proof -
  from hits_pieces_match [OF assms] obtain s' where "match_here re_parentConstructors (m @ s') = Some (m, s', g)"
    by blast
  from match_here_in_ms [OF this] have "(s', g) \<in> set (ms re_parentConstructors (m @ s', []))" by simp
  from parentConstructors_in_ms [OF this] obtain c ind ref kw rest where
    "m @ s' = c # ind @ ref @ ''.call('' @ kw @ rest @ s'"
    "c = CHR 0x0D \<or> c = CHR ''\<newline>''" "kw = ''this'' \<or> kw = ''that''"
    "\<forall>x \<in> set rest. \<not> is_line_terminator x" "g = [(3, rest), (2, ref), (1, ind)]"
    by blast
  then have "m = c # ind @ ref @ ''.call('' @ kw @ rest
           \<and> (c = CHR 0x0D \<or> c = CHR ''\<newline>'') \<and> (kw = ''this'' \<or> kw = ''that'')
           \<and> (\<forall>x \<in> set rest. \<not> is_line_terminator x)
           \<and> g = [(3, rest), (2, ref), (1, ind)]"
    by simp
  then show ?thesis by blast
qed

lemma parentConstructors_fn_caps:
  "parentConstructors_fn filepath m [(3, rest), (2, ref), (1, ind)] w =
     (if Str ref = getParent (index w) (getFileClass filepath)
      then (line_feed @ ind @ ''super('' @ super_args rest @ '');'', w)
      else ([], w\<lparr>console := console w @ [RemovingExtra m]\<rparr>))"
  by (simp add: parentConstructors_fn_def cap_val_def cap_str_def)

lemma call_statement_covered:
  assumes "s = pre @ c # ind @ ref @ ''.call('' @ kw @ rest @ post"
    and "call_statement c ind ref kw rest post"
  shows "\<exists>ps1 ps2 x c' W m g.
           pieces re_parentConstructors s = ps1 @ Hit m g # ps2
           \<and> concat (map piece_text ps1) @ x = pre
           \<and> c' # W = x @ c # ind
           \<and> m = c' # W @ ref @ ''.call('' @ kw @ rest
           \<and> concat (map piece_text ps2) = post
           \<and> g = [(3, rest), (2, ref), (1, W)]"
proof -
  from assms(2) have cs: "c = CHR 0x0D \<or> c = CHR ''\<newline>''" "\<forall>x \<in> set ind. is_space x"
    "ref \<noteq> []" "\<forall>x \<in> set ref. wordish x" "kw = ''this'' \<or> kw = ''that''"
    "\<forall>x \<in> set rest. \<not> is_line_terminator x" "at_line_end post"
    by (auto simp: call_statement_def list_all_iff is_line_terminator_def)
  from parentConstructors_covers_statement [OF assms(1) cs] obtain ps1 m g ps2 x where
    a: "pieces re_parentConstructors s = ps1 @ Hit m g # ps2" "concat (map piece_text ps2) = post"
       "m = x @ c # ind @ ref @ ''.call('' @ kw @ rest"
    by blast
  from pieces_text [of re_parentConstructors s] a assms(1)
  have "concat (map piece_text ps1) @ x @ c # ind @ ref @ ''.call('' @ kw @ rest @ post
        = pre @ c # ind @ ref @ ''.call('' @ kw @ rest @ post"
    by simp
  then have px: "concat (map piece_text ps1) @ x = pre" by simp
  from a(1) have "(m, g) \<in> set (hits (pieces re_parentConstructors s))" by (simp add: hits_append)
  from hits_pieces_match [OF this] obtain s' where "match_here re_parentConstructors (m @ s') = Some (m, s', g)"
    by blast
  from match_here_in_ms [OF this] have "(s', g) \<in> set (ms re_parentConstructors (m @ s', []))" by simp
  from parentConstructors_in_ms [OF this] obtain c' W ref' kw' rest' where
    sh: "m = c' # W @ ref' @ ''.call('' @ kw' @ rest'"
        "kw' = ''this'' \<or> kw' = ''that''" "\<forall>x \<in> set W. is_space x" "ref' \<noteq> []"
        "\<forall>x \<in> set ref'. wordish x" "\<forall>x \<in> set rest'. \<not> is_line_terminator x"
        "g = [(3, rest'), (2, ref'), (1, W)]"
    by auto
  have "ref' = ref \<and> kw' = kw \<and> rest' = rest \<and> c' # W = x @ c # ind"
  proof (cases x)
    case Nil
    with a(3) sh(1) have "c' = c"
      and e: "W @ ref' @ ''.call('' @ kw' @ rest' @ [] = ind @ ref @ ''.call'' @ CHR ''('' # kw @ rest @ []"
      by simp_all
    from e have e': "W @ ref' @ ''.call('' @ kw' @ rest' @ [] = ind @ ref @ ''.call('' @ kw @ rest @ []"
      by simp
    have el: "at_line_end []" by (simp add: at_line_end_def)
    from call_align [OF e' cs(2) sh(3) cs(3,4) sh(4,5) cs(5) sh(2) cs(6) sh(6) el el]
    have "W = ind \<and> ref' = ref \<and> kw' = kw \<and> rest' = rest" by blast
    with Nil \<open>c' = c\<close> show ?thesis by simp
  next
    case (Cons x0 xs)
    with a(3) sh(1) have c0: "c' = x0"
      and e: "W @ ref' @ ''.call('' @ kw' @ rest' = xs @ c # ind @ ref @ ''.call('' @ kw @ rest"
      by simp_all
    let ?Z = "ref' @ ''.call('' @ kw' @ rest'"
    have a1: "\<forall>x \<in> set ref'. \<not> is_line_terminator x"
      using sh(5) wordish_not_terminator by blast
    have a2: "\<forall>x \<in> set ''.call(''. \<not> is_line_terminator x"
      by (simp add: is_line_terminator_def)
    have a3: "\<forall>x \<in> set kw'. \<not> is_line_terminator x"
      using sh(2) by (auto simp: is_line_terminator_def)
    have lt: "is_line_terminator c"
      using cs(1) by (auto simp: is_line_terminator_def)
    have "\<forall>x \<in> set ?Z. \<not> is_line_terminator x"
      unfolding set_append using a1 a2 a3 sh(6) by blast
    with lt have cz: "c \<notin> set ?Z" by blast
    from e have "W @ ?Z = xs @ c # (ind @ ref @ ''.call('' @ kw @ rest)" by simp
    from split_before_terminator [OF this cz] obtain i2 where
      i2: "W = xs @ c # i2" "ind @ ref @ ''.call('' @ kw @ rest = i2 @ ?Z" by blast
    from i2(1) sh(3) have sp2: "\<forall>x \<in> set i2. is_space x" by auto
    from i2(2) have e': "i2 @ ref' @ ''.call('' @ kw' @ rest' @ [] = ind @ ref @ ''.call('' @ kw @ rest @ []"
      by simp
    have el: "at_line_end []" by (simp add: at_line_end_def)
    from call_align [OF e' cs(2) sp2 cs(3,4) sh(4,5) cs(5) sh(2) cs(6) sh(6) el el]
    have "i2 = ind \<and> ref' = ref \<and> kw' = kw \<and> rest' = rest" by blast
    with i2(1) Cons c0 show ?thesis by simp
  qed
  with a sh px have "pieces re_parentConstructors s = ps1 @ Hit m g # ps2
           \<and> concat (map piece_text ps1) @ x = pre
           \<and> c' # W = x @ c # ind
           \<and> m = c' # W @ ref @ ''.call('' @ kw @ rest
           \<and> concat (map piece_text ps2) = post
           \<and> g = [(3, rest), (2, ref), (1, W)]"
    by simp
  then show ?thesis by blast
qed


lemma apply_pieces_append:
  "apply_pieces f (ps1 @ ps2) st =
     (case apply_pieces f ps1 st of (o1, st1) \<Rightarrow>
        (case apply_pieces f ps2 st1 of (o2, st2) \<Rightarrow> (o1 @ o2, st2)))"
proof (induction ps1 arbitrary: st rule: hits.induct)
  case 1
  then show ?case by (simp add: split_beta)
next
  case (2 c ps)
  then show ?case by (simp add: split_beta)
next
  case (3 m g ps)
  then show ?case by (simp add: split_beta)
qed

lemma parentConstructors_fn_index:
  "index (snd (parentConstructors_fn filepath m g w)) = index w"
  by (simp add: parentConstructors_fn_def Let_def)

lemma parentConstructors_fn_text:
  "index w' = index w
   \<Longrightarrow> fst (parentConstructors_fn filepath m g w') = fst (parentConstructors_fn filepath m g w)"
  by (simp add: parentConstructors_fn_def Let_def)

lemma parentConstructors_stage_index:
  "index (snd (apply_pieces (parentConstructors_fn filepath) ps w)) = index w"
  by (rule apply_pieces_invariant [where P = "\<lambda>t. index t = index w"])
     (simp_all add: parentConstructors_fn_index)

lemma parentConstructors_stage_text:
  assumes "index w' = index w"
  shows "fst (apply_pieces (parentConstructors_fn filepath) ps w')
         = fst (apply_pieces (parentConstructors_fn filepath) ps w)"
proof -
  have "fst (apply_pieces (parentConstructors_fn filepath) ps w')
          = fst (apply_pieces (parentConstructors_fn filepath) ps w)
        \<and> index (snd (apply_pieces (parentConstructors_fn filepath) ps w'))
          = index (snd (apply_pieces (parentConstructors_fn filepath) ps w))"
  proof (rule apply_pieces_rel [where R = "\<lambda>a b. index a = index b"])
    show "index w' = index w" by (rule assms)
  next
    fix m g and t t' :: world
    assume "index t = index t'"
    then show "fst (parentConstructors_fn filepath m g t) = fst (parentConstructors_fn filepath m g t')
        \<and> index (snd (parentConstructors_fn filepath m g t))
            = index (snd (parentConstructors_fn filepath m g t'))"
      using parentConstructors_fn_text [of t t' filepath m g]
      by (simp add: parentConstructors_fn_index)
  qed
  then show ?thesis by simp
qed

lemma parentConstructors_console_grows:
  "set (console w) \<subseteq> set (console (snd (apply_pieces (parentConstructors_fn filepath) ps w)))"
  by (rule apply_pieces_invariant [where P = "\<lambda>t. set (console w) \<subseteq> set (console t)"])
     (auto simp: parentConstructors_fn_def Let_def)

text \<open>
  Claim C2, as amended. Every call statement that follows a line break lies in a match of
  the superclass-call stage: the match ends with the statement (it may begin at an
  earlier line break when only white space lies between), the text behind the match is
  the text behind the statement's line, and the callback receives the reference and the
  rest of the line. When the reference equals the parent recorded for the unit's class
  name, the match is replaced by a line feed, the white space and \<^verbatim>\<open>super(...);\<close>;
  otherwise it is replaced by nothing and the notice with the matched text is logged.
  When the rest of the line is a list of arguments that hold no comma and no closing
  parenthesis, closed by a parenthesis and followed by no further comma or parenthesis,
  the receiver is dropped and the arguments are kept in order.
\<close>

theorem parentConstructors_statement:
  assumes "s = pre @ c # ind @ ref @ ''.call('' @ kw @ rest @ post"
    and "call_statement c ind ref kw rest post"
  shows "\<exists>ps1 ps2 x c' W m.
           pieces re_parentConstructors s = ps1 @ Hit m [(3, rest), (2, ref), (1, W)] # ps2
           \<and> concat (map piece_text ps1) @ x = pre
           \<and> c' # W = x @ c # ind
           \<and> m = c' # W @ ref @ ''.call('' @ kw @ rest
           \<and> concat (map piece_text ps2) = post
           \<and> fst (replace_all re_parentConstructors (parentConstructors_fn filepath) s w)
               = fst (apply_pieces (parentConstructors_fn filepath) ps1 w)
                 @ (if Str ref = getParent (index w) (getFileClass filepath)
                    then line_feed @ W @ ''super('' @ super_args rest @ '');'' else [])
                 @ fst (apply_pieces (parentConstructors_fn filepath) ps2 w)
           \<and> (Str ref \<noteq> getParent (index w) (getFileClass filepath)
                \<longrightarrow> RemovingExtra m
                      \<in> set (console (snd (replace_all re_parentConstructors
                                              (parentConstructors_fn filepath) s w))))
           \<and> (\<forall>args tail. rest = concat (map ((#) CHR '','') args) @ CHR '')'' # tail
                  \<and> list_all plain args \<and> plain tail
                  \<longrightarrow> super_args rest = trim (join '','' args))"
proof -
  let ?f = "parentConstructors_fn filepath"
  from call_statement_covered [OF assms] obtain ps1 ps2 x c' W m g where
    a: "pieces re_parentConstructors s = ps1 @ Hit m g # ps2"
       "concat (map piece_text ps1) @ x = pre" "c' # W = x @ c # ind"
       "m = c' # W @ ref @ ''.call('' @ kw @ rest" "concat (map piece_text ps2) = post"
       "g = [(3, rest), (2, ref), (1, W)]"
    by blast
  let ?w1 = "snd (apply_pieces ?f ps1 w)"
  let ?w2 = "snd (?f m g ?w1)"
  have i1: "index ?w1 = index w" by (rule parentConstructors_stage_index)
  have i2: "index ?w2 = index w" using i1 by (simp add: parentConstructors_fn_index)
  have whole: "replace_all re_parentConstructors ?f s w =
      (fst (apply_pieces ?f ps1 w) @ fst (?f m g ?w1) @ fst (apply_pieces ?f ps2 ?w2),
       snd (apply_pieces ?f ps2 ?w2))"
    unfolding replace_all_def a(1) apply_pieces_append by (simp add: split_beta)
  have step: "?f m g ?w1 =
      (if Str ref = getParent (index w) (getFileClass filepath)
       then (line_feed @ W @ ''super('' @ super_args rest @ '');'', ?w1)
       else ([], ?w1\<lparr>console := console ?w1 @ [RemovingExtra m]\<rparr>))"
    unfolding a(6) parentConstructors_fn_caps i1 ..
  have out_eq: "fst (replace_all re_parentConstructors ?f s w)
               = fst (apply_pieces ?f ps1 w)
                 @ (if Str ref = getParent (index w) (getFileClass filepath)
                    then line_feed @ W @ ''super('' @ super_args rest @ '');'' else [])
                 @ fst (apply_pieces ?f ps2 w)"
    unfolding whole using parentConstructors_stage_text [OF i2, of filepath ps2] step by simp
  have logged: "RemovingExtra m \<in> set (console (snd (replace_all re_parentConstructors ?f s w)))"
    if "Str ref \<noteq> getParent (index w) (getFileClass filepath)"
  proof -
    from that step have "RemovingExtra m \<in> set (console ?w2)" by simp
    with parentConstructors_console_grows [of ?w2 filepath ps2] show ?thesis
      unfolding whole by auto
  qed
  have args: "\<forall>args tail. rest = concat (map ((#) CHR '','') args) @ CHR '')'' # tail
                  \<and> list_all plain args \<and> plain tail
                  \<longrightarrow> super_args rest = trim (join '','' args)"
    using super_args_plain by (auto simp: list_all_iff)
  from a out_eq logged args
  have "pieces re_parentConstructors s = ps1 @ Hit m [(3, rest), (2, ref), (1, W)] # ps2
           \<and> concat (map piece_text ps1) @ x = pre
           \<and> c' # W = x @ c # ind
           \<and> m = c' # W @ ref @ ''.call('' @ kw @ rest
           \<and> concat (map piece_text ps2) = post
           \<and> fst (replace_all re_parentConstructors (parentConstructors_fn filepath) s w)
               = fst (apply_pieces (parentConstructors_fn filepath) ps1 w)
                 @ (if Str ref = getParent (index w) (getFileClass filepath)
                    then line_feed @ W @ ''super('' @ super_args rest @ '');'' else [])
                 @ fst (apply_pieces (parentConstructors_fn filepath) ps2 w)
           \<and> (Str ref \<noteq> getParent (index w) (getFileClass filepath)
                \<longrightarrow> RemovingExtra m
                      \<in> set (console (snd (replace_all re_parentConstructors
                                              (parentConstructors_fn filepath) s w))))
           \<and> (\<forall>args tail. rest = concat (map ((#) CHR '','') args) @ CHR '')'' # tail
                  \<and> list_all plain args \<and> plain tail
                  \<longrightarrow> super_args rest = trim (join '','' args))"
    by blast
  then show ?thesis by blast
qed

lemma callText_pieces:
  "pieces re_parentConstructors callText =
     map Gap ''constructor(o) {''
     @ [Hit ''\<newline>  Base.call(this, o.a, o.b);'' [(3, '', o.a, o.b);''), (2, ''Base''), (1, ''  '')],
        Hit ''\<newline>  Mixin.call(this);'' [(3, '');''), (2, ''Mixin''), (1, ''  '')],
        Gap CHR ''\<newline>'', Gap CHR ''}'']"
  by code_simp

theorem parentConstructors_statement_witness:
  "callText = ''constructor(o) {'' @ CHR ''\<newline>'' # ''  '' @ ''Base'' @ ''.call('' @ ''this''
                @ '', o.a, o.b);'' @ ''\<newline>  Mixin.call(this);\<newline>}''
   \<and> call_statement CHR ''\<newline>'' ''  '' ''Base'' ''this'' '', o.a, o.b);''
         ''\<newline>  Mixin.call(this);\<newline>}''
   \<and> plain '' o.a'' \<and> plain '' o.b'' \<and> plain '';''
   \<and> super_args '', o.a, o.b);'' = ''o.a, o.b''
   \<and> fst (replace_all re_parentConstructors (parentConstructors_fn ''src/Child.js'')
            callText world_Child_Base)
       = ''constructor(o) {\<newline>  super(o.a, o.b);\<newline>}''
   \<and> console (snd (replace_all re_parentConstructors (parentConstructors_fn ''src/Child.js'')
                      callText world_Child_Base))
       = [RemovingExtra ''\<newline>  Mixin.call(this);'']"
proof -
  have s: "callText = ''constructor(o) {'' @ CHR ''\<newline>'' # ''  '' @ ''Base'' @ ''.call('' @ ''this''
                @ '', o.a, o.b);'' @ ''\<newline>  Mixin.call(this);\<newline>}''"
    by (simp add: callText_def)
  have cs: "call_statement CHR ''\<newline>'' ''  '' ''Base'' ''this'' '', o.a, o.b);''
         ''\<newline>  Mixin.call(this);\<newline>}''"
    by code_simp
  have pl: "plain '' o.a'' \<and> plain '' o.b'' \<and> plain '';''"
    by (simp add: plain_def)
  from parentConstructors_statement [OF s cs, of "''src/Child.js''" world_Child_Base]
  have "\<forall>args tail. '', o.a, o.b);'' = concat (map ((#) CHR '','') args) @ CHR '')'' # tail
                  \<and> list_all plain args \<and> plain tail
                  \<longrightarrow> super_args '', o.a, o.b);'' = trim (join '','' args)"
    by blast
  from this [rule_format, of "['' o.a'', '' o.b'']" "'';''"] pl
  have "super_args '', o.a, o.b);'' = trim (join '','' ['' o.a'', '' o.b''])" by simp
  also have "\<dots> = ''o.a, o.b''" by code_simp
  finally have sa: "super_args '', o.a, o.b);'' = ''o.a, o.b''" .
  have out: "fst (replace_all re_parentConstructors (parentConstructors_fn ''src/Child.js'')
            callText world_Child_Base)
       = ''constructor(o) {\<newline>  super(o.a, o.b);\<newline>}''"
    by code_simp
  have con: "console (snd (replace_all re_parentConstructors (parentConstructors_fn ''src/Child.js'')
                      callText world_Child_Base))
       = [RemovingExtra ''\<newline>  Mixin.call(this);'']"
    by code_simp
  from s cs pl sa out con show ?thesis by blast
qed

text \<open>
  Counterexample to claim C2 as stated: a call of the recorded parent on the first line
  of the unit has no line terminator in front and is left as it is; and an argument that
  is itself a call is cut at its closing parenthesis, so the arguments are not kept.
\<close>

theorem parentConstructors_rewrite_counterexample:
  "fst (replace_all re_parentConstructors (parentConstructors_fn ''src/Child.js'')
          ''Base.call(this, a);'' world_Child_Base)
     = ''Base.call(this, a);''
   \<and> fst (replace_all re_parentConstructors (parentConstructors_fn ''src/Child.js'')
          ''constructor(a, b) {\<newline>  Base.call(this, f(a), b);\<newline>}'' world_Child_Base)
     = ''constructor(a, b) {\<newline>  super(f(a,, b);\<newline>}''
   \<and> fst (replace_all re_parentConstructors (parentConstructors_fn ''src/Child.js'')
          ''constructor(a, b) {\<newline>  Base.call(this, f(a), b);\<newline>}'' world_Child_Base)
     \<noteq> ''constructor(a, b) {\<newline>  super(f(a), b);\<newline>}''"
  by code_simp

lemma parentConstructors_removes_all:
  assumes "\<forall>(m, g) \<in> set (hits ps). cap_val g 2 \<noteq> Undefined"
    and "getParent (index w) (getFileClass filepath) = Undefined
         \<or> getParent (index w) (getFileClass filepath) = Null"
  shows "apply_pieces (parentConstructors_fn filepath) ps w =
           (gaps ps, w\<lparr>console := console w @ map (\<lambda>(m, g). RemovingExtra m) (hits ps)\<rparr>)"
  using assms
proof (induction ps arbitrary: w rule: hits.induct)
  case 1
  then show ?case by simp
next
  case (2 c ps)
  then show ?case by simp
next
  case (3 m g ps)
  let ?w1 = "w\<lparr>console := console w @ [RemovingExtra m]\<rparr>"
  from "3.prems" have ne: "cap_val g 2 \<noteq> getParent (index w) (getFileClass filepath)"
    using cap_val_not_Null [of g 2] by auto
  then have step: "parentConstructors_fn filepath m g w = ([], ?w1)"
    by (simp add: parentConstructors_fn_def)
  from "3.prems" have "apply_pieces (parentConstructors_fn filepath) ps ?w1 =
           (gaps ps, ?w1\<lparr>console := console ?w1 @ map (\<lambda>(m, g). RemovingExtra m) (hits ps)\<rparr>)"
    by (intro "3.IH") auto
  with step show ?case by simp
qed

lemma parentConstructors_without_parent:
  assumes "getParent (index w) (getFileClass filepath) = Undefined
           \<or> getParent (index w) (getFileClass filepath) = Null"
  shows "replace_all re_parentConstructors (parentConstructors_fn filepath) s w =
           (gaps (pieces re_parentConstructors s),
            w\<lparr>console := console w
                 @ map (\<lambda>(m, g). RemovingExtra m) (hits (pieces re_parentConstructors s))\<rparr>)"
proof -
  have "\<forall>(m, g) \<in> set (hits (pieces re_parentConstructors s)). cap_val g 2 \<noteq> Undefined"
  proof (clarify)
    fix m g
    assume h: "(m, g) \<in> set (hits (pieces re_parentConstructors s))" and u: "cap_val g 2 = Undefined"
    from parentConstructors_hit_shape [OF h] obtain rest ref ind where "g = [(3, rest), (2, ref), (1, ind)]"
      by blast
    with u show False by (simp add: cap_val_def)
  qed
  from parentConstructors_removes_all [OF this assms] show ?thesis by (simp add: replace_all_def)
qed

text \<open>
  Claim C10, as amended. When the index holds no parent for the unit's class name (no
  entry, or \<^verbatim>\<open>null\<close>), the superclass-call stage deletes every match of its pattern,
  whatever the reference is, and logs the notice once for each, in order; and every call
  statement that follows a line break lies in such a match, so that nothing of it is
  left in the output and its notice is logged.
\<close>

theorem parentConstructors_no_parent_removes:
  assumes "getParent (index w) (getFileClass filepath) = Undefined
           \<or> getParent (index w) (getFileClass filepath) = Null"
  shows "replace_all re_parentConstructors (parentConstructors_fn filepath) s w =
           (gaps (pieces re_parentConstructors s),
            w\<lparr>console := console w
                 @ map (\<lambda>(m, g). RemovingExtra m) (hits (pieces re_parentConstructors s))\<rparr>)
         \<and> (\<forall>pre c ind ref kw rest post.
               s = pre @ c # ind @ ref @ ''.call('' @ kw @ rest @ post
               \<and> call_statement c ind ref kw rest post
               \<longrightarrow> (\<exists>ps1 ps2 x m g.
                      pieces re_parentConstructors s = ps1 @ Hit m g # ps2
                      \<and> concat (map piece_text ps1) @ x = pre
                      \<and> m = x @ c # ind @ ref @ ''.call('' @ kw @ rest
                      \<and> concat (map piece_text ps2) = post
                      \<and> fst (replace_all re_parentConstructors (parentConstructors_fn filepath) s w)
                          = gaps ps1 @ gaps ps2
                      \<and> RemovingExtra m
                          \<in> set (console (snd (replace_all re_parentConstructors
                                                  (parentConstructors_fn filepath) s w)))))"
proof -
  have all: "replace_all re_parentConstructors (parentConstructors_fn filepath) s w =
           (gaps (pieces re_parentConstructors s),
            w\<lparr>console := console w
                 @ map (\<lambda>(m, g). RemovingExtra m) (hits (pieces re_parentConstructors s))\<rparr>)"
    using parentConstructors_without_parent [OF assms] .
  have "\<exists>ps1 ps2 x m g.
          pieces re_parentConstructors s = ps1 @ Hit m g # ps2
          \<and> concat (map piece_text ps1) @ x = pre
          \<and> m = x @ c # ind @ ref @ ''.call('' @ kw @ rest
          \<and> concat (map piece_text ps2) = post
          \<and> fst (replace_all re_parentConstructors (parentConstructors_fn filepath) s w)
              = gaps ps1 @ gaps ps2
          \<and> RemovingExtra m
              \<in> set (console (snd (replace_all re_parentConstructors
                                      (parentConstructors_fn filepath) s w)))"
    if st: "s = pre @ c # ind @ ref @ ''.call('' @ kw @ rest @ post"
      "call_statement c ind ref kw rest post"
    for pre c ind ref kw rest post
  proof -
    from call_statement_covered [OF st] obtain ps1 ps2 x c' W m g where
      a: "pieces re_parentConstructors s = ps1 @ Hit m g # ps2"
         "concat (map piece_text ps1) @ x = pre" "c' # W = x @ c # ind"
         "m = c' # W @ ref @ ''.call('' @ kw @ rest" "concat (map piece_text ps2) = post"
      by blast
    from a(3,4) have m: "m = x @ c # ind @ ref @ ''.call('' @ kw @ rest"
      by (metis append_Cons append_assoc)
    from all a(1) have "fst (replace_all re_parentConstructors (parentConstructors_fn filepath) s w)
              = gaps ps1 @ gaps ps2
          \<and> RemovingExtra m
              \<in> set (console (snd (replace_all re_parentConstructors
                                      (parentConstructors_fn filepath) s w)))"
      by (simp add: gaps_append hits_append)
    with a m show ?thesis by blast
  qed
  with all show ?thesis by blast
qed

theorem parentConstructors_no_parent_removes_witness:
  "(getParent (index world0) (getFileClass ''src/Child.js'') = Undefined
     \<or> getParent (index world0) (getFileClass ''src/Child.js'') = Null)
   \<and> fst (replace_all re_parentConstructors (parentConstructors_fn ''src/Child.js'') callText world0)
       = ''constructor(o) {\<newline>}''
   \<and> console (snd (replace_all re_parentConstructors (parentConstructors_fn ''src/Child.js'')
                      callText world0))
       = [RemovingExtra ''\<newline>  Base.call(this, o.a, o.b);'',
          RemovingExtra ''\<newline>  Mixin.call(this);'']"
proof -
  have h: "getParent (index world0) (getFileClass ''src/Child.js'') = Undefined
     \<or> getParent (index world0) (getFileClass ''src/Child.js'') = Null"
    by (simp add: world0_def empty_index_def getParent_def)
  from parentConstructors_no_parent_removes [OF h, of callText]
  have "replace_all re_parentConstructors (parentConstructors_fn ''src/Child.js'') callText world0 =
           (gaps (pieces re_parentConstructors callText),
            world0\<lparr>console := console world0
                 @ map (\<lambda>(m, g). RemovingExtra m) (hits (pieces re_parentConstructors callText))\<rparr>)"
    by blast
  with h show ?thesis by (simp add: callText_pieces world0_def)
qed

text \<open>
  Counterexample to claim C10 as stated: the pattern begins with a line terminator, so a
  call statement on the first line of the unit is not matched; it stays in the output
  and no notice is logged.
\<close>

theorem parentConstructors_first_line_counterexample:
  "getParent (index world0) (getFileClass ''src/Child.js'') = Undefined
   \<and> fst (replace_all re_parentConstructors (parentConstructors_fn ''src/Child.js'')
            ''Other.call(this, a);'' world0)
       = ''Other.call(this, a);''
   \<and> console (snd (replace_all re_parentConstructors (parentConstructors_fn ''src/Child.js'')
                      ''Other.call(this, a);'' world0))
       = []"
  by code_simp

section \<open>The dependency stage\<close>


lemma in_ms_NegLook: "x \<in> set (ms (NegLook r) st) \<longleftrightarrow> x = st \<and> ms r st = []"
  by simp

lemma in_takeWhile_split:
  "x \<in> set (takeWhile P xs) \<Longrightarrow> \<exists>a b. xs = a @ x # b \<and> (\<forall>y \<in> set a. P y)"
proof (induction xs)
  case Nil
  then show ?case by simp
next
  case (Cons c cs)
  show ?case
  proof (cases "x = c")
    case True
    then have "c # cs = [] @ x # cs \<and> (\<forall>y \<in> set []. P y)" by simp
    then show ?thesis by blast
  next
    case False
    with Cons.prems have pc: "P c" and "x \<in> set (takeWhile P cs)" by (auto split: if_splits)
    with Cons.IH obtain a b where "cs = a @ x # b" "\<forall>y \<in> set a. P y" by blast
    with pc have "c # cs = (c # a) @ x # b \<and> (\<forall>y \<in> set (c # a). P y)" by simp
    then show ?thesis by blast
  qed
qed

lemma assignment_ahead_matches:
  assumes "CHR ''='' \<in> set (line_rest s)"
  shows "ms (seqs [Star (Cls AnyChar), Lit ''='', Star (Cls AnyChar)]) (s, g) \<noteq> []"
proof -
  from assms obtain a b where ab: "s = a @ CHR ''='' # b" "\<forall>y \<in> set a. \<not> is_line_terminator y"
    unfolding line_rest_def using in_takeWhile_split by fast
  then have "(b, g) \<in> set (ms (seqs [Star (Cls AnyChar), Lit ''='', Star (Cls AnyChar)]) (s, g))"
    unfolding seqs.simps in_ms_simps by auto
  then show ?thesis by (metis empty_iff empty_set)
qed

lemma internalDependencies_in_ms:
  assumes "(s', g) \<in> set (ms re_internalDependencies (s, []))"
  shows "\<exists>N. s = ''ROS3D.'' @ N @ s' \<and> N \<noteq> [] \<and> (\<forall>c \<in> set N. is_word c) \<and> g = [(1, N)]
             \<and> CHR ''='' \<notin> set (line_rest s')"
proof -
  from assms obtain N where
    n: "s = ''ROS3D.'' @ N @ s'" "N \<noteq> []" "\<forall>c \<in> set N. in_cls Word c" "g = [(1, N)]"
    and look: "ms (seqs [Star (Cls AnyChar), Lit ''='', Star (Cls AnyChar)]) (s', g) = []"
    unfolding re_internalDependencies_def seqs.simps(3) seqs.simps(2) in_ms_Seq_pair in_ms_Lit in_ms_Grp
      in_ms_OneOrMore_Cls in_ms_NegLook
    by auto
  from look assignment_ahead_matches [of s' g] have "CHR ''='' \<notin> set (line_rest s')" by blast
  with n show ?thesis by auto
qed

lemma deps_of_track:
  "set (deps_of (w\<lparr>internal := deps_track fp d (internal w)\<rparr>) f) \<subseteq> insert d (set (deps_of w f))"
  by (auto simp: deps_of_def deps_track_def split: option.splits if_splits)

lemma internalDependencies_fn_eq:
  "internalDependencies_fn filepath m g w =
     (cap_str g 1, w\<lparr>internal := deps_track filepath (cap_str g 1) (internal w)\<rparr>)"
  by (simp add: internalDependencies_fn_def)

lemma new_dependency_from_hit:
  assumes "N \<in> set (deps_of (snd (apply_pieces (internalDependencies_fn filepath) ps w)) f)"
    and "N \<notin> set (deps_of w f)"
  shows "\<exists>(m, g) \<in> set (hits ps). cap_str g 1 = N"
  using assms
proof (induction ps arbitrary: w rule: hits.induct)
  case 1
  then show ?case by simp
next
  case (2 c ps)
  then show ?case by (simp add: split_beta)
next
  case (3 m g ps)
  let ?w1 = "w\<lparr>internal := deps_track filepath (cap_str g 1) (internal w)\<rparr>"
  have sw: "snd (internalDependencies_fn filepath m g w) = ?w1"
    by (simp add: internalDependencies_fn_eq)
  have e: "snd (apply_pieces (internalDependencies_fn filepath) (Hit m g # ps) w)
           = snd (apply_pieces (internalDependencies_fn filepath) ps
                    (snd (internalDependencies_fn filepath m g w)))"
    by (simp only: apply_pieces.simps split_beta snd_conv)
  from "3.prems"(1) have in1: "N \<in> set (deps_of (snd (apply_pieces (internalDependencies_fn filepath) ps ?w1)) f)"
    unfolding e sw .
  show ?case
  proof (cases "cap_str g 1 = N")
    case True
    then show ?thesis by auto
  next
    case False
    with "3.prems"(2) deps_of_track [where w = w and fp = filepath and d = "cap_str g 1" and f = f] have "N \<notin> set (deps_of ?w1 f)" by auto
    from "3.IH" [OF in1 this] show ?thesis by auto
  qed
qed

text \<open>
  Claim C3, as amended. Every name that the dependency stage adds to the names recorded
  for a file comes from an occurrence \<^verbatim>\<open>ROS3D.Name\<close> in the text behind which the rest of
  the line holds no \<^verbatim>\<open>=\<close>, and that occurrence is one of the matches of the scan: the
  occurrence that is matched is not the target of an assignment written on its line.
  This is a property of the occurrence, not of the symbol: the same name may be assigned
  to elsewhere, even on the same line.
\<close>

theorem internalDependencies_not_assigned_on_line:
  assumes "N \<in> set (deps_of (snd (replace_all re_internalDependencies
                                     (internalDependencies_fn filepath) s w)) f)"
    and "N \<notin> set (deps_of w f)"
  shows "\<exists>pre post. s = pre @ ''ROS3D.'' @ N @ post \<and> CHR ''='' \<notin> set (line_rest post)
           \<and> match_here re_internalDependencies (''ROS3D.'' @ N @ post)
               = Some (''ROS3D.'' @ N, post, [(1, N)])
           \<and> (''ROS3D.'' @ N, [(1, N)]) \<in> set (hits (pieces re_internalDependencies s))"
proof -
  from new_dependency_from_hit [OF assms [unfolded replace_all_def]]
  obtain m g where h: "(m, g) \<in> set (hits (pieces re_internalDependencies s))" and c: "cap_str g 1 = N"
    by auto
  from hits_pieces_match [OF h] obtain pre post
    where mh: "match_here re_internalDependencies (m @ post) = Some (m, post, g)" and s: "s = pre @ m @ post"
    by blast
  from match_here_in_ms [OF mh] have "(post, g) \<in> set (ms re_internalDependencies (m @ post, []))" by simp
  from internalDependencies_in_ms [OF this] obtain N' where
    n: "m @ post = ''ROS3D.'' @ N' @ post" "g = [(1, N')]" "CHR ''='' \<notin> set (line_rest post)"
    by blast
  from n(2) c have nn: "N' = N" by (simp add: cap_str_def cap_val_def)
  with n(1) have m: "m = ''ROS3D.'' @ N" by simp
  from mh m n(2) nn have "match_here re_internalDependencies (''ROS3D.'' @ N @ post)
               = Some (''ROS3D.'' @ N, post, [(1, N)])" by simp
  with s n(3) h m n(2) nn
  have "s = pre @ ''ROS3D.'' @ N @ post \<and> CHR ''='' \<notin> set (line_rest post)
           \<and> match_here re_internalDependencies (''ROS3D.'' @ N @ post)
               = Some (''ROS3D.'' @ N, post, [(1, N)])
           \<and> (''ROS3D.'' @ N, [(1, N)]) \<in> set (hits (pieces re_internalDependencies s))" by simp
  then show ?thesis by blast
qed

text \<open>
  Counterexample to claim C3 as stated. The look-ahead does not reach beyond the line, so
  the target of an assignment whose operator stands on the next line is recorded as a
  dependency; and a symbol that is assigned to on a line is recorded all the same when it
  occurs once more behind the operator, the occurrence in front being left in place.
\<close>

theorem internalDependencies_assigned_counterexample:
  "deps_of (snd (replace_all re_internalDependencies (internalDependencies_fn ''src/a.js'')
                   (''ROS3D.Foo'' @ ''\<newline>  = 5;'') world0)) ''src/a.js'' = [''Foo'']
   \<and> assigned_next ''\<newline>  = 5;''
   \<and> deps_of (snd (replace_all re_internalDependencies (internalDependencies_fn ''src/a.js'')
                   (''ROS3D.A'' @ '' = ROS3D.A || {};'') world0)) ''src/a.js'' = [''A'']
   \<and> assigned_next '' = ROS3D.A || {};''
   \<and> fst (replace_all re_internalDependencies (internalDependencies_fn ''src/a.js'')
                   (''ROS3D.A'' @ '' = ROS3D.A || {};'') world0) = ''ROS3D.A = A || {};''"
  by code_simp

theorem internalDependencies_not_assigned_on_line_witness:
  "''make'' \<in> set (deps_of (snd (replace_all re_internalDependencies
                                     (internalDependencies_fn ''src/a.js'') depText world0)) ''src/a.js'')
   \<and> ''make'' \<notin> set (deps_of world0 ''src/a.js'')
   \<and> (\<exists>pre post. depText = pre @ ''ROS3D.'' @ ''make'' @ post \<and> CHR ''='' \<notin> set (line_rest post))
   \<and> ''A'' \<notin> set (deps_of (snd (replace_all re_internalDependencies
                                     (internalDependencies_fn ''src/a.js'') depText world0)) ''src/a.js'')"
proof -
  have a: "''make'' \<in> set (deps_of (snd (replace_all re_internalDependencies
                                     (internalDependencies_fn ''src/a.js'') depText world0)) ''src/a.js'')"
    by code_simp
  have b: "''make'' \<notin> set (deps_of world0 ''src/a.js'')"
    by (simp add: deps_of_def world0_def)
  have c: "''A'' \<notin> set (deps_of (snd (replace_all re_internalDependencies
                                     (internalDependencies_fn ''src/a.js'') depText world0)) ''src/a.js'')"
    by code_simp
  from internalDependencies_not_assigned_on_line [OF a b] a b c show ?thesis by blast
qed

section \<open>The class stage\<close>


lemma classes_in_ms:
  assumes "(s', g) \<in> set (ms re_classes (s, []))"
  shows "fst ` set g \<subseteq> {1} \<or> fst ` set g \<subseteq> {2}"
proof -
  let ?A = "Grp 1 (seqs [Lit ''/**'',
                       LazyOneOrMore (Alt (Seq (Lit ''*'') (Cls (NoneOf ''/'')))
                                          (Cls (NoneOf ''*''))),
                       Lit ''*/'',
                       Star (Cls (Union Space (OneOf cr_lf))),
                       Lit ''constructor('', Star (Cls AnyChar)])"
  let ?B = "Alt (seqs [Eol, Star (Seq (Cls (OneOf cr_lf)) Eol),
                Grp 2 (NegLook (Cls (OneOf cr_lf)))])
         (Star (Cls AnyChar))"
  from assms consider "(s', g) \<in> set (ms ?A (s, []))" | "(s', g) \<in> set (ms ?B (s, []))"
    unfolding re_classes_def in_ms_Alt by blast
  then show ?thesis
  proof cases
    case 1
    from ms_caps [OF 1] have "fst ` set g \<subseteq> groups ?A" by auto
    also have "groups ?A = {1}" by (simp add: LazyOneOrMore_def)
    finally show ?thesis by simp
  next
    case 2
    from ms_caps [OF 2] have "fst ` set g \<subseteq> groups ?B" by auto
    also have "groups ?B = {2}" by simp
    finally show ?thesis by simp
  qed
qed

lemma classes_hit_groups:
  assumes "(m, g) \<in> set (hits (pieces re_classes s))" and "cap_val g 1 \<noteq> Undefined"
  shows "\<not> isFinish g"
proof -
  from hits_pieces_match [OF assms(1)] obtain s' where "match_here re_classes (m @ s') = Some (m, s', g)"
    by blast
  from match_here_in_ms [OF this] have "(s', g) \<in> set (ms re_classes (m @ s', []))" by simp
  from classes_in_ms [OF this] assms(2) have "2 \<notin> fst ` set g"
    unfolding cap_val_defined by auto
  then show ?thesis unfolding isFinish_def cap_val_defined by simp
qed

lemma classes_fn_keeps_first:
  "matchedFirstComment st \<Longrightarrow> matchedFirstComment (snd (classes_fn filepath idx m g st))"
  by (simp add: classes_fn_def Let_def isStart_def)

lemma classes_fn_start_sets_first:
  "isStart g st \<Longrightarrow> matchedFirstComment (snd (classes_fn filepath idx m g st))"
  by (simp add: classes_fn_def Let_def)

lemma classes_fn_in_class_after_first:
  "isInClass st \<longrightarrow> matchedFirstComment st
   \<Longrightarrow> isInClass (snd (classes_fn filepath idx m g st))
        \<longrightarrow> matchedFirstComment (snd (classes_fn filepath idx m g st))"
  by (simp add: classes_fn_def Let_def)

lemma hit_states_invariant:
  assumes "P st" and "\<And>m g t. P t \<Longrightarrow> P (snd (f m g t))"
  shows "\<forall>(m, g, t) \<in> set (hit_states f ps st). P t"
  using assms(1)
proof (induction ps arbitrary: st rule: hits.induct)
  case 1
  then show ?case by simp
next
  case (2 c ps)
  then show ?case by simp
next
  case (3 m g ps)
  from "3.prems" assms(2) have "P (snd (f m g st))" by simp
  from "3.IH" [OF this] "3.prems" show ?case by simp
qed

lemma no_start_after_first:
  "matchedFirstComment st
   \<Longrightarrow> filter (\<lambda>(m, g, t). isStart g t) (hit_states (classes_fn filepath idx) ps st) = []"
proof (induction ps arbitrary: st rule: hits.induct)
  case 1
  then show ?case by simp
next
  case (2 c ps)
  then show ?case by simp
next
  case (3 m g ps)
  from "3.prems" have "matchedFirstComment (snd (classes_fn filepath idx m g st))"
    by (rule classes_fn_keeps_first)
  from "3.IH" [OF this] "3.prems" show ?case by (simp add: isStart_def)
qed

lemma at_most_one_start:
  "length (filter (\<lambda>(m, g, t). isStart g t) (hit_states (classes_fn filepath idx) ps st)) \<le> 1"
proof (induction ps arbitrary: st rule: hits.induct)
  case 1
  then show ?case by simp
next
  case (2 c ps)
  then show ?case by simp
next
  case (3 m g ps)
  show ?case
  proof (cases "isStart g st")
    case True
    then have "matchedFirstComment (snd (classes_fn filepath idx m g st))"
      by (rule classes_fn_start_sets_first)
    from no_start_after_first [OF this] True show ?thesis by simp
  next
    case False
    with "3.IH" [of "snd (classes_fn filepath idx m g st)"] show ?thesis by simp
  qed
qed

text \<open>
  Claim C7. In the sweep of the class stage over any text, the open condition (the first
  group matched and no comment matched before) holds for at most one match; it holds only
  in a state in which no block has been opened, that is, neither flag is set. A later
  match of a documentation comment followed by a constructor, met while the block is
  open, is replaced like any other text of the body, by the indentation and the match,
  and leaves the state as it is.
\<close>

theorem classes_opens_once:
  "length (filter (\<lambda>(m, g, st). isStart g st)
             (hit_states (classes_fn filepath idx) (pieces re_classes s) asm_init)) \<le> 1
   \<and> (\<forall>(m, g, st) \<in> set (hit_states (classes_fn filepath idx) (pieces re_classes s) asm_init).
         (isStart g st \<longrightarrow> \<not> matchedFirstComment st \<and> \<not> isInClass st)
         \<and> (cap_val g 1 \<noteq> Undefined \<and> matchedFirstComment st \<and> isInClass st
              \<longrightarrow> classes_fn filepath idx m g st = (indent @ m, st)))"
proof -
  let ?tr = "hit_states (classes_fn filepath idx) (pieces re_classes s) asm_init"
  have inv: "\<forall>(m, g, t) \<in> set ?tr. isInClass t \<longrightarrow> matchedFirstComment t"
    by (rule hit_states_invariant) (simp_all add: asm_init_def classes_fn_in_class_after_first)
  have "(isStart g st \<longrightarrow> \<not> matchedFirstComment st \<and> \<not> isInClass st)
         \<and> (cap_val g 1 \<noteq> Undefined \<and> matchedFirstComment st \<and> isInClass st
              \<longrightarrow> classes_fn filepath idx m g st = (indent @ m, st))"
    if el: "(m, g, st) \<in> set ?tr" for m g st
  proof -
    from inv el have i: "isInClass st \<longrightarrow> matchedFirstComment st" by auto
    from hit_states_hits [OF el] have h: "(m, g) \<in> set (hits (pieces re_classes s))" .
    have "classes_fn filepath idx m g st = (indent @ m, st)"
      if "cap_val g 1 \<noteq> Undefined" "matchedFirstComment st" "isInClass st"
      using that classes_hit_groups [OF h] by (simp add: classes_fn_def Let_def isStart_def)
    with i show ?thesis by (auto simp: isStart_def)
  qed
  with at_most_one_start [of filepath idx "pieces re_classes s" asm_init] show ?thesis by auto
qed

lemma twoClasses_trace:
  "hit_states (classes_fn ''src/A.js'' empty_index) (pieces re_classes twoClasses) asm_init =
   [(''/** A */\<newline>constructor(a) {'', [(1, ''/** A */\<newline>constructor(a) {'')],
      \<lparr>isInClass = False, matchedFirstComment = False\<rparr>),
    ([], [], \<lparr>isInClass = True, matchedFirstComment = True\<rparr>),
    (''}'', [], \<lparr>isInClass = True, matchedFirstComment = True\<rparr>),
    ([], [], \<lparr>isInClass = True, matchedFirstComment = True\<rparr>),
    (''/** B */\<newline>constructor(b) {'', [(1, ''/** B */\<newline>constructor(b) {'')],
      \<lparr>isInClass = True, matchedFirstComment = True\<rparr>),
    ([], [], \<lparr>isInClass = True, matchedFirstComment = True\<rparr>),
    (''}'', [], \<lparr>isInClass = True, matchedFirstComment = True\<rparr>),
    ([], [(2, [])], \<lparr>isInClass = True, matchedFirstComment = True\<rparr>)]"
  by code_simp

theorem classes_opens_once_witness:
  "(''/** B */\<newline>constructor(b) {'', [(1, ''/** B */\<newline>constructor(b) {'')],
      \<lparr>isInClass = True, matchedFirstComment = True\<rparr>)
     \<in> set (hit_states (classes_fn ''src/A.js'' empty_index) (pieces re_classes twoClasses) asm_init)
   \<and> cap_val [(1, ''/** B */\<newline>constructor(b) {'')] 1 \<noteq> Undefined
   \<and> classes_fn ''src/A.js'' empty_index ''/** B */\<newline>constructor(b) {''
         [(1, ''/** B */\<newline>constructor(b) {'')] \<lparr>isInClass = True, matchedFirstComment = True\<rparr>
       = (indent @ ''/** B */\<newline>constructor(b) {'', \<lparr>isInClass = True, matchedFirstComment = True\<rparr>)
   \<and> fst (replace_all re_classes (classes_fn ''src/A.js'' empty_index) twoClasses asm_init)
       = ''export class A {\<newline>\<newline>  /** A */\<newline>  constructor(a) {  \<newline>  }  \<newline>  /** B */\<newline>constructor(b) {  \<newline>  }\<newline>}\<newline>''"
proof -
  let ?m = "''/** B */\<newline>constructor(b) {''"
  let ?g = "[(1, ''/** B */\<newline>constructor(b) {'')] :: caps"
  let ?st = "\<lparr>isInClass = True, matchedFirstComment = True\<rparr>"
  have el: "(?m, ?g, ?st)
     \<in> set (hit_states (classes_fn ''src/A.js'' empty_index) (pieces re_classes twoClasses) asm_init)"
    by (simp add: twoClasses_trace)
  have c: "cap_val ?g 1 \<noteq> Undefined" by (simp add: cap_val_def)
  have out: "fst (replace_all re_classes (classes_fn ''src/A.js'' empty_index) twoClasses asm_init)
       = ''export class A {\<newline>\<newline>  /** A */\<newline>  constructor(a) {  \<newline>  }  \<newline>  /** B */\<newline>constructor(b) {  \<newline>  }\<newline>}\<newline>''"
    by code_simp
  from classes_opens_once [of "''src/A.js''" empty_index twoClasses] el
  have "cap_val ?g 1 \<noteq> Undefined \<and> matchedFirstComment ?st \<and> isInClass ?st
              \<longrightarrow> classes_fn ''src/A.js'' empty_index ?m ?g ?st = (indent @ ?m, ?st)"
    by fast
  with c have "classes_fn ''src/A.js'' empty_index ?m ?g ?st = (indent @ ?m, ?st)" by simp
  with el c out show ?thesis by blast
qed

section \<open>The whole pipeline\<close>


lemma replace_all_absent: "\<not> occurs r s \<Longrightarrow> replace_all r f s st = (s, st)"
  by (simp add: occurs_def replace_all_def apply_pieces_no_hits pieces_text)

lemma occurs_match_here: "match_here r s = Some a \<Longrightarrow> occurs r s"
proof -
  assume a: "match_here r s = Some a"
  obtain m s' g where "a = (m, s', g)" by (cases a)
  with a have "\<exists>ps. pieces r s = Hit m g # ps" by (subst pieces.simps) simp
  then show ?thesis by (auto simp: occurs_def)
qed

lemma occurs_tail: "occurs r cs \<Longrightarrow> occurs r (c # cs)"
proof (cases "match_here r (c # cs)")
  case None
  assume "occurs r cs"
  with None show ?thesis by (simp add: occurs_def pieces_Cons_None)
next
  case (Some a)
  then show ?thesis by (rule occurs_match_here)
qed

lemma replace_first_absent: "\<not> occurs r s \<Longrightarrow> replace_first r rep s = s"
proof (induction s)
  case Nil
  then have "match_here r [] = None" using occurs_match_here [of r "[]"] by (cases "match_here r []") auto
  then show ?case by simp
next
  case (Cons c cs)
  then have n: "match_here r (c # cs) = None"
    using occurs_match_here [of r "c # cs"] by (cases "match_here r (c # cs)") auto
  from Cons.prems occurs_tail [of r cs c] have "\<not> occurs r cs" by blast
  with Cons.IH n show ?case by simp
qed

lemma constructors_stage_fixed:
  assumes "\<forall>(m, g) \<in> set (hits ps). \<not> isClass (index w) (cap_str g 1)"
  shows "fst (apply_pieces (constructors_fn filepath) ps w) = concat (map piece_text ps)
         \<and> index (snd (apply_pieces (constructors_fn filepath) ps w)) = index w
         \<and> internal (snd (apply_pieces (constructors_fn filepath) ps w)) = internal w"
  using assms
proof (induction ps arbitrary: w rule: hits.induct)
  case 1
  then show ?case by simp
next
  case (2 c ps)
  then show ?case by (simp add: split_beta)
next
  case (3 m g ps)
  let ?w1 = "snd (constructors_fn filepath m g w)"
  from "3.prems" have step: "fst (constructors_fn filepath m g w) = m" "index ?w1 = index w"
    "internal ?w1 = internal w"
    by (simp_all add: constructors_fn_eq)
  from "3.prems" step(2) have "\<forall>(m, g) \<in> set (hits ps). \<not> isClass (index ?w1) (cap_str g 1)" by simp
  from "3.IH" [OF this] step show ?case by (simp add: split_beta)
qed

lemma classes_stage_fixed:
  assumes "\<forall>(m, g) \<in> set (hits ps). cap_val g 1 = Undefined"
  shows "apply_pieces (classes_fn filepath idx) ps asm_init = (concat (map piece_text ps), asm_init)"
  using assms
proof (induction ps rule: hits.induct)
  case 1
  then show ?case by simp
next
  case (2 c ps)
  then show ?case by simp
next
  case (3 m g ps)
  from "3.prems" have "classes_fn filepath idx m g asm_init = (m, asm_init)"
    by (simp add: classes_fn_def isStart_def asm_init_def)
  with "3.IH" "3.prems" show ?case by simp
qed

lemma transpile_fixed_point:
  assumes init: "filepath = ''src/Ros3D.js'' \<longrightarrow> \<not> occurs re_initialROS3DAssignment s"
    and deps: "\<not> occurs re_internalDependencies s"
    and proto: "\<not> occurs re_buildInheritanceIndexViaProto s"
    and assign: "\<not> occurs re_buildInheritanceIndexViaObjectAssign s"
    and meth: "\<not> occurs re_methods s"
    and ctor: "\<forall>(m, g) \<in> set (hits (pieces re_constructors s)). \<not> isClass (index w) (cap_str g 1)"
    and par: "\<not> occurs re_parentConstructors s"
    and cls: "\<forall>(m, g) \<in> set (hits (pieces re_classes s)). cap_val g 1 = Undefined"
  shows "fst (transpileToEs6 s filepath w) = s
         \<and> index (snd (transpileToEs6 s filepath w)) = index w
         \<and> internal (snd (transpileToEs6 s filepath w)) = internal w"
proof -
  let ?w0 = "w\<lparr>console := console w @ [Processing filepath]\<rparr>"
  from init have t0: "(if filepath = ''src/Ros3D.js''
                then replace_first re_initialROS3DAssignment revision_export s
                else s) = s"
    by (simp add: replace_first_absent)
  from ctor have "\<forall>(m, g) \<in> set (hits (pieces re_constructors s)). \<not> isClass (index ?w0) (cap_str g 1)"
    by simp
  from constructors_stage_fixed [OF this, of filepath]
  obtain w5 where s5: "replace_all re_constructors (constructors_fn filepath) s ?w0 = (s, w5)"
    and w5: "index w5 = index w" "internal w5 = internal w"
    by (cases "replace_all re_constructors (constructors_fn filepath) s ?w0")
       (simp add: replace_all_def pieces_text)
  from classes_stage_fixed [OF cls]
  have s7: "replace_all re_classes (classes_fn filepath (index w5)) s asm_init = (s, asm_init)"
    by (simp add: replace_all_def pieces_text)
  have "transpileToEs6 s filepath w = (s, w5)"
    unfolding transpileToEs6_def Let_def t0
    by (simp add: replace_all_absent deps proto assign meth par s5 s7)
  with w5 show ?thesis by simp
qed


lemma replace_all_invariant:
  assumes "P st" and "\<And>m g t. P t \<Longrightarrow> P (snd (f m g t))"
  shows "P (snd (replace_all r f s st))"
  unfolding replace_all_def
  by (rule apply_pieces_invariant [where P = P and f = f]) (use assms in blast)+

text \<open>
  Every index that the pipeline leaves behind is reachable, so the properties of
  reachable indexes hold throughout a run.
\<close>

lemma transpile_keeps_reachable:
  assumes "reachable (index w)"
  shows "reachable (index (snd (transpileToEs6 s filepath w)))"
proof -
  let ?P = "\<lambda>t. reachable (index t)"
  let ?w0 = "w\<lparr>console := console w @ [Processing filepath]\<rparr>"
  let ?t0 = "if filepath = ''src/Ros3D.js''
             then replace_first re_initialROS3DAssignment revision_export s else s"
  let ?r1 = "replace_all re_internalDependencies (internalDependencies_fn filepath) ?t0 ?w0"
  let ?r2 = "replace_all re_buildInheritanceIndexViaProto buildInheritanceIndex_fn (fst ?r1) (snd ?r1)"
  let ?r3 = "replace_all re_buildInheritanceIndexViaObjectAssign buildInheritanceIndex_fn
               (fst ?r2) (snd ?r2)"
  let ?r4 = "replace_all re_methods methods_fn (fst ?r3) (snd ?r3)"
  let ?r5 = "replace_all re_constructors (constructors_fn filepath) (fst ?r4) (snd ?r4)"
  let ?r6 = "replace_all re_parentConstructors (parentConstructors_fn filepath) (fst ?r5) (snd ?r5)"
  from assms have 0: "?P ?w0" by simp
  have 1: "?P (snd ?r1)"
    by (rule replace_all_invariant [where P = ?P, OF 0]) (simp add: internalDependencies_fn_def)
  have 2: "?P (snd ?r2)"
    by (rule replace_all_invariant [where P = ?P, OF 1]) (simp add: buildInheritanceIndex_fn_def reachable.step)
  have 3: "?P (snd ?r3)"
    by (rule replace_all_invariant [where P = ?P, OF 2]) (simp add: buildInheritanceIndex_fn_def reachable.step)
  have 4: "?P (snd ?r4)"
    by (rule replace_all_invariant [where P = ?P, OF 3]) (simp add: methods_fn_def reachable.step)
  have 5: "?P (snd ?r5)"
    by (rule replace_all_invariant [where P = ?P, OF 4]) (simp add: constructors_fn_eq)
  have 6: "?P (snd ?r6)"
    by (rule replace_all_invariant [where P = ?P, OF 5]) (simp add: parentConstructors_fn_def Let_def)
  have "snd (transpileToEs6 s filepath w) = snd ?r6"
    by (simp add: transpileToEs6_def Let_def split_beta)
  with 6 show ?thesis by simp
qed

text \<open>
  Claim C4, as amended. A text is returned unchanged by the whole pipeline, and both
  tables are left as they were, when none of the patterns of the first five stages and of
  the superclass-call stage occurs in it, every constructor head in it names a symbol
  that is not a class in the index, and no match of the class stage is a documentation
  comment followed by a constructor. A second pass over the result then returns it
  unchanged as well.
\<close>

theorem transpile_unchanged_without_patterns:
  assumes "filepath = ''src/Ros3D.js'' \<longrightarrow> \<not> occurs re_initialROS3DAssignment s"
    and "\<not> occurs re_internalDependencies s"
    and "\<not> occurs re_buildInheritanceIndexViaProto s"
    and "\<not> occurs re_buildInheritanceIndexViaObjectAssign s"
    and "\<not> occurs re_methods s"
    and "\<forall>(m, g) \<in> set (hits (pieces re_constructors s)). \<not> isClass (index w) (cap_str g 1)"
    and "\<not> occurs re_parentConstructors s"
    and "\<forall>(m, g) \<in> set (hits (pieces re_classes s)). cap_val g 1 = Undefined"
  shows "fst (transpileToEs6 s filepath w) = s
         \<and> index (snd (transpileToEs6 s filepath w)) = index w
         \<and> internal (snd (transpileToEs6 s filepath w)) = internal w
         \<and> fst (transpileToEs6 (fst (transpileToEs6 s filepath w)) filepath
                  (snd (transpileToEs6 s filepath w)))
             = fst (transpileToEs6 s filepath w)"
proof -
  let ?w1 = "snd (transpileToEs6 s filepath w)"
  from transpile_fixed_point [OF assms]
  have one: "fst (transpileToEs6 s filepath w) = s" "index ?w1 = index w" "internal ?w1 = internal w"
    by simp_all
  from assms(6) one(2)
  have "\<forall>(m, g) \<in> set (hits (pieces re_constructors s)). \<not> isClass (index ?w1) (cap_str g 1)"
    by simp
  from transpile_fixed_point [OF assms(1-5) this assms(7,8)]
  have "fst (transpileToEs6 s filepath ?w1) = s" by simp
  with one show ?thesis by simp
qed

lemma scenarioA_first_pass:
  "fst (transpileToEs6 scenarioA ''src/models/Arrow2.js'' world0) = scenarioA_out"
  by code_simp

lemma scenarioA_out_clean:
  "\<not> occurs re_internalDependencies scenarioA_out"
  "\<not> occurs re_buildInheritanceIndexViaProto scenarioA_out"
  "\<not> occurs re_buildInheritanceIndexViaObjectAssign scenarioA_out"
  "\<not> occurs re_methods scenarioA_out"
  "hits (pieces re_constructors scenarioA_out) = []"
  "\<not> occurs re_parentConstructors scenarioA_out"
  "list_all (\<lambda>(m, g). cap_val g 1 = Undefined) (hits (pieces re_classes scenarioA_out))"
  by code_simp+

theorem transpile_unchanged_without_patterns_witness:
  "\<not> occurs re_internalDependencies scenarioA_out
   \<and> \<not> occurs re_buildInheritanceIndexViaProto scenarioA_out
   \<and> \<not> occurs re_buildInheritanceIndexViaObjectAssign scenarioA_out
   \<and> \<not> occurs re_methods scenarioA_out
   \<and> hits (pieces re_constructors scenarioA_out) = []
   \<and> \<not> occurs re_parentConstructors scenarioA_out
   \<and> list_all (\<lambda>(m, g). cap_val g 1 = Undefined) (hits (pieces re_classes scenarioA_out))
   \<and> fst (transpileToEs6 (fst (transpileToEs6 scenarioA ''src/models/Arrow2.js'' world0))
            ''src/models/Arrow2.js'' (snd (transpileToEs6 scenarioA ''src/models/Arrow2.js'' world0)))
       = fst (transpileToEs6 scenarioA ''src/models/Arrow2.js'' world0)"
proof -
  let ?fp = "''src/models/Arrow2.js''"
  let ?w1 = "snd (transpileToEs6 scenarioA ?fp world0)"
  have i: "?fp = ''src/Ros3D.js'' \<longrightarrow> \<not> occurs re_initialROS3DAssignment scenarioA_out" by simp
  have c: "\<forall>(m, g) \<in> set (hits (pieces re_constructors scenarioA_out)).
             \<not> isClass (index ?w1) (cap_str g 1)"
    by (simp add: scenarioA_out_clean(5))
  have k: "\<forall>(m, g) \<in> set (hits (pieces re_classes scenarioA_out)). cap_val g 1 = Undefined"
    using scenarioA_out_clean(7) by (simp add: list_all_iff)
  from transpile_unchanged_without_patterns
         [OF i scenarioA_out_clean(1-4) c scenarioA_out_clean(6) k]
  have "fst (transpileToEs6 scenarioA_out ?fp ?w1) = scenarioA_out" by simp
  then show ?thesis using scenarioA_out_clean by (simp add: scenarioA_first_pass)
qed

text \<open>
  Counterexample to claim C4 as stated: the dependency stage takes one namespace prefix
  off per pass, so the text of the first pass still holds a qualified reference and the
  second pass changes it again.
\<close>

theorem transpile_second_pass_counterexample:
  "fst (transpileToEs6 ''ROS3D.ROS3D.x;'' ''src/a.js'' world0) = ''ROS3D.x;''
   \<and> fst (transpileToEs6 (fst (transpileToEs6 ''ROS3D.ROS3D.x;'' ''src/a.js'' world0)) ''src/a.js''
            (snd (transpileToEs6 ''ROS3D.ROS3D.x;'' ''src/a.js'' world0))) = ''x;''
   \<and> occurs re_internalDependencies (fst (transpileToEs6 ''ROS3D.ROS3D.x;'' ''src/a.js'' world0))"
  by code_simp

lemma utilText_scan:
  "\<not> occurs re_initialROS3DAssignment utilText"
  "\<not> occurs re_internalDependencies utilText"
  "\<not> occurs re_buildInheritanceIndexViaProto utilText"
  "\<not> occurs re_buildInheritanceIndexViaObjectAssign utilText"
  "\<not> occurs re_methods utilText"
  "hits (pieces re_constructors utilText) = [(''ROS3D.util = function'', [(1, ''util'')])]"
  "\<not> occurs re_parentConstructors utilText"
  "hits (pieces re_classes utilText) = [(utilText, []), ([], [(2, [])])]"
  by code_simp+

lemma utilText_constructors_pieces:
  "pieces re_constructors utilText =
     Hit ''ROS3D.util = function'' [(1, ''util'')] # map Gap ''(x) { return x; };''"
  by code_simp

lemma apply_pieces_gaps: "apply_pieces f (map Gap s) st = (s, st)"
  by (induction s) simp_all

lemma utilText_constructors_stage:
  "replace_all re_constructors (constructors_fn filepath) utilText v =
     (if isClass (index v) ''util'' then ''constructor(x) { return x; };'' else utilText,
      if isClass (index v) ''util'' = isFileClass filepath ''util'' then v
      else v\<lparr>console := console v
               @ [ClassMismatch filepath ''util'' (isClass (index v) ''util'')
                    (isFileClass filepath ''util'')]\<rparr>)"
  unfolding replace_all_def utilText_constructors_pieces
  by (simp add: apply_pieces_gaps constructors_fn_def Let_def cap_str_def cap_val_def to_string.simps)
     (simp add: utilText_def)

text \<open>
  Claim C5, as amended. For the unit whose whole text is the assignment of a function to
  \<^verbatim>\<open>ROS3D.util\<close>, under any file path and in any state in which \<^verbatim>\<open>util\<close> is not a class,
  the pipeline returns the statement as it is, with the namespace in front of the name:
  the constructor stage matches the head and hands it back, no class wrapper is put
  around it, both tables are left as they were and \<^verbatim>\<open>util\<close> is still not a class. The log
  gets the banner, and the class mismatch report when the file is named after \<^verbatim>\<open>util\<close>.
  The head is left alone because of the index only: in a state in which \<^verbatim>\<open>util\<close> is a
  class, the same stage turns it into the constructor marker.
\<close>

theorem util_unit_keeps_qualifier:
  assumes "\<not> isClass (index w) ''util''"
  shows "transpileToEs6 utilText filepath w =
           (''ROS3D.util = function(x) { return x; };'',
            w\<lparr>console := console w @ Processing filepath
                   # (if isFileClass filepath ''util''
                      then [ClassMismatch filepath ''util'' False True] else [])\<rparr>)
         \<and> \<not> isClass (index (snd (transpileToEs6 utilText filepath w))) ''util''
         \<and> fst (replace_all re_constructors (constructors_fn filepath) utilText v) =
             (if isClass (index v) ''util'' then ''constructor(x) { return x; };''
              else ''ROS3D.util = function(x) { return x; };'')"
proof -
  let ?w0 = "w\<lparr>console := console w @ [Processing filepath]\<rparr>"
  let ?w5 = "w\<lparr>console := console w @ Processing filepath
                   # (if isFileClass filepath ''util''
                      then [ClassMismatch filepath ''util'' False True] else [])\<rparr>"
  have t0: "(if filepath = ''src/Ros3D.js''
             then replace_first re_initialROS3DAssignment revision_export utilText
             else utilText) = utilText"
    by (simp add: replace_first_absent utilText_scan(1))
  from assms have s5: "replace_all re_constructors (constructors_fn filepath) utilText ?w0 = (utilText, ?w5)"
    by (simp add: utilText_constructors_stage)
  have k: "\<forall>(m, g) \<in> set (hits (pieces re_classes utilText)). cap_val g 1 = Undefined"
    by (simp add: utilText_scan(8) cap_val_def)
  from classes_stage_fixed [OF k]
  have s7: "\<And>idx. replace_all re_classes (classes_fn filepath idx) utilText asm_init = (utilText, asm_init)"
    by (simp add: replace_all_def pieces_text)
  have "transpileToEs6 utilText filepath w = (utilText, ?w5)"
    unfolding transpileToEs6_def Let_def t0
    by (simp add: replace_all_absent utilText_scan(2-5) utilText_scan(7) s5 s7)
  with assms show ?thesis
    by (simp add: utilText_constructors_stage) (simp add: utilText_def)
qed

theorem util_unit_keeps_qualifier_witness:
  "\<not> isClass (index world0) ''util''
   \<and> fst (transpileToEs6 utilText ''src/util.js'' world0) = ''ROS3D.util = function(x) { return x; };''
   \<and> console (snd (transpileToEs6 utilText ''src/util.js'' world0)) =
       [Processing ''src/util.js'', ClassMismatch ''src/util.js'' ''util'' False True]
   \<and> \<not> isClass (index (snd (transpileToEs6 utilText ''src/util.js'' world0))) ''util''
   \<and> fst (replace_all re_constructors (constructors_fn ''src/util.js'') utilText
            (world0\<lparr>index := track ''util'' Null empty_index\<rparr>)) = ''constructor(x) { return x; };''"
proof -
  have h: "\<not> isClass (index world0) ''util''"
    by (simp add: world0_def empty_index_def isClass_def)
  have f: "isFileClass ''src/util.js'' ''util''" by code_simp
  have c: "isClass (index (world0\<lparr>index := track ''util'' Null empty_index\<rparr>)) ''util''"
    by (simp add: isClass_def track_def empty_index_def world0_def truthy.simps)
  from util_unit_keeps_qualifier [OF h, of "''src/util.js''" "world0\<lparr>index := track ''util'' Null empty_index\<rparr>"] h f c
  show ?thesis by (simp add: world0_def)
qed

text \<open>
  Counterexample to claim C5 as stated: the output is not a bare function named
  \<^verbatim>\<open>util\<close>. The statement keeps its qualifier; the rule that would replace it,
  \<^verbatim>\<open>exportedProperites\<close>, is not applied by \<^verbatim>\<open>transpileToEs6\<close>.
\<close>

theorem util_unit_bare_counterexample:
  "fst (transpileToEs6 utilText ''src/util.js'' world0) = ''ROS3D.util = function(x) { return x; };''
   \<and> occurs (Lit ''ROS3D.'') (fst (transpileToEs6 utilText ''src/util.js'' world0))
   \<and> fst (transpileToEs6 utilText ''src/util.js'' world0) \<noteq> ''util = function(x) { return x; };''
   \<and> fst (transpileToEs6 utilText ''src/util.js'' world0) \<noteq> ''function util(x) { return x; }''"
  by code_simp



end
